theory Spec2Isabelle
  imports Complex_Main "HOL-Library.Multiset"
begin

section \<open>Name generation (\<open>name_parts\<close> and \<open>names\<close> of eca/sessions.py)\<close>

text \<open>
  The two vocabularies of \<open>name_parts\<close>, in the order the source lists them.
\<close>

definition letters0 :: "string list" where
  "letters0 = [''alpha'', ''beta'', ''gamma'', ''delta'', ''epsilon'', ''zeta'', ''eta'',
               ''theta'', ''iota'', ''kappa'', ''lambda'', ''mu'', ''nu'', ''xi'', ''omicron'',
               ''pi'', ''rho'', ''sigma'', ''tau'', ''upsilon'', ''phi'', ''chi'', ''psi'',
               ''omega'']"

definition colours0 :: "string list" where
  "colours0 = [''red'', ''orange'', ''yellow'', ''green'', ''blue'', ''violet'']"

text \<open>
  \<open>random.shuffle(x)\<close> is the library's in-place Fisher-Yates loop
  \<^verbatim>\<open>for i in reversed(range(1, len(x))): j = randbelow(i + 1); x[i], x[j] = x[j], x[i]\<close>.
  The random source is an arbitrary stream \<open>r\<close> of naturals read from position \<open>p\<close>;
  \<open>randbelow (i + 1)\<close> is the next element reduced modulo \<open>i + 1\<close>. \<open>fisher_yates i\<close>
  runs the loop for the indices \<open>i, i - 1, ..., 1\<close>.
\<close>

definition swap :: "nat \<Rightarrow> nat \<Rightarrow> 'a list \<Rightarrow> 'a list" where
  "swap i j xs = xs[i := xs ! j, j := xs ! i]"

fun fisher_yates :: "nat \<Rightarrow> (nat \<Rightarrow> nat) \<Rightarrow> nat \<Rightarrow> 'a list \<Rightarrow> 'a list" where
  "fisher_yates 0 r p xs = xs"
| "fisher_yates (Suc i) r p xs = fisher_yates i r (Suc p) (swap (Suc i) (r p mod (Suc (Suc i))) xs)"

definition shuffle :: "(nat \<Rightarrow> nat) \<Rightarrow> nat \<Rightarrow> 'a list \<Rightarrow> 'a list" where
  "shuffle r p xs = fisher_yates (length xs - 1) r p xs"

text \<open>
  The state of the module-level iterator \<open>names\<close>. The generator \<open>name_parts\<close> owns the two
  list objects \<open>letters\<close> and \<open>colours\<close>, which it shuffles in place, and the list \<open>parts\<close>
  whose entries are references to those two objects (so \<open>parts\<close> is a list of tags, and a
  shuffle of \<open>letters\<close> is seen through every \<open>Letters\<close> entry). \<open>started\<close> tells whether the
  generator body has run up to its first \<open>yield\<close>. \<open>pending\<close> holds the tuples the current
  \<open>product(*p)\<close> iterator has still to yield: \<open>itertools.product\<close> copies its argument lists
  into tuples when it is constructed, so later shuffles do not change it. \<open>rnd\<close> and \<open>rpos\<close>
  are the random stream and the number of values consumed from it.
\<close>

datatype wordlist = Letters | Colours

record names_state =
  letters :: "string list"
  colours :: "string list"
  parts :: "wordlist list"
  started :: bool
  pending :: "string list list"
  rnd :: "nat \<Rightarrow> nat"
  rpos :: nat

definition names_init :: "(nat \<Rightarrow> nat) \<Rightarrow> names_state" where
  "names_init r = \<lparr> letters = letters0, colours = colours0, parts = [], started = False,
                    pending = [], rnd = r, rpos = 0 \<rparr>"

definition shuffle_letters :: "names_state \<Rightarrow> names_state" where
  "shuffle_letters s = s\<lparr> letters := shuffle (rnd s) (rpos s) (letters s),
                          rpos := rpos s + (length (letters s) - 1) \<rparr>"

definition shuffle_colours :: "names_state \<Rightarrow> names_state" where
  "shuffle_colours s = s\<lparr> colours := shuffle (rnd s) (rpos s) (colours s),
                          rpos := rpos s + (length (colours s) - 1) \<rparr>"

text \<open>
  Resuming \<open>name_parts\<close> up to its next \<open>yield parts\<close>: the first time it shuffles both lists
  and builds \<open>parts = [letters, colours]\<close>; every later time it shuffles both lists again and
  appends \<open>letters\<close> to \<open>parts\<close>.
\<close>

definition name_parts_next :: "names_state \<Rightarrow> names_state" where
  "name_parts_next s =
     (let s1 = shuffle_letters s; s2 = shuffle_colours s1 in
      if started s then s2\<lparr> parts := parts s2 @ [Letters] \<rparr>
      else s2\<lparr> parts := [Letters, Colours], started := True \<rparr>)"

definition resolve :: "names_state \<Rightarrow> wordlist \<Rightarrow> string list" where
  "resolve s w = (case w of Letters \<Rightarrow> letters s | Colours \<Rightarrow> colours s)"

text \<open>
  \<open>product(*p)\<close>: the tuples of the Cartesian product of the lists \<open>parts\<close> refers to, the
  rightmost factor advancing fastest.
\<close>

definition product_of :: "names_state \<Rightarrow> string list list" where
  "product_of s = product_lists (map (resolve s) (parts s))"

text \<open>\<open>'-'.join(t)\<close>.\<close>

fun join :: "string list \<Rightarrow> string" where
  "join [] = []"
| "join [w] = w"
| "join (w # v # ws) = w @ CHR ''-'' # join (v # ws)"

text \<open>
  \<open>next(names)\<close>: \<open>chain.from_iterable\<close> yields from the current product until it is
  exhausted, then resumes \<open>name_parts\<close> for the next \<open>parts\<close>, builds its product and goes
  on; the loop has no exit other than yielding, so it is a partial function.
\<close>

definition advance :: "names_state \<Rightarrow> names_state" where
  "advance s = (let s' = name_parts_next s in s'\<lparr> pending := product_of s' \<rparr>)"

partial_function (option) names_next :: "names_state \<Rightarrow> (string \<times> names_state) option" where
  "names_next s =
     (case pending s of
        t # ts \<Rightarrow> Some (join t, s\<lparr> pending := ts \<rparr>)
      | [] \<Rightarrow> names_next (advance s))"

declare names_next.simps [code]

text \<open>\<open>n\<close> successive calls of \<open>next(names)\<close>, with the values in the order drawn.\<close>

fun draws :: "nat \<Rightarrow> names_state \<Rightarrow> (string list \<times> names_state) option" where
  "draws 0 s = Some ([], s)"
| "draws (Suc n) s =
     (case names_next s of
        None \<Rightarrow> None
      | Some (x, s') \<Rightarrow> (case draws n s' of None \<Rightarrow> None | Some (xs, s'') \<Rightarrow> Some (x # xs, s'')))"

section \<open>Sessions and the session manager\<close>

text \<open>
  The exception classes the modelled code can be left by. A class stands for itself and
  its subclasses: \<open>ValueError\<close> covers \<open>UnicodeDecodeError\<close> and \<open>JSONDecodeError\<close>,
  \<open>OSError\<close> covers \<open>ConnectionResetError\<close> and \<open>socket.timeout\<close>.
\<close>

datatype exn = KeyError | ValueError | NotImplementedError | OverflowError | MemoryError
  | RecursionError | CookieError | OSError

text \<open>
  A \<open>Session\<close> object: the handle of its \<open>Context\<close> object and the time it was last seen.
  Timestamps are the values \<open>time.time()\<close> returns, taken as real numbers.
\<close>

record session =
  sess_context :: nat
  seen :: real

text \<open>
  The state one \<open>SessionManager\<close> works on: the module-level iterator \<open>names\<close>, the manager's
  \<open>sessions\<close> dictionary and \<open>cookie\<close> name, and the outside world it calls into. The world
  is: the \<open>Context\<close> objects constructed so far (\<open>ctxs\<close>, indexed by handle, each with the name
  it was constructed with and whether \<open>start()\<close> has been called on it), the process-wide
  current context, and the clock, an arbitrary sequence of readings of which \<open>ticks\<close> have
  been consumed.
\<close>

record sys =
  names :: names_state
  sessions :: "string \<rightharpoonup> session"
  cookie :: string
  ctxs :: "(string \<times> bool) list"
  current :: "nat option"
  clock :: "nat \<Rightarrow> real"
  ticks :: nat

text \<open>\<open>SessionManager.__init__\<close>, in a fresh process.\<close>

definition sys_init :: "string \<Rightarrow> (nat \<Rightarrow> nat) \<Rightarrow> (nat \<Rightarrow> real) \<Rightarrow> sys" where
  "sys_init cookie_name r clk =
     \<lparr> names = names_init r, sessions = Map.empty, cookie = cookie_name, ctxs = [],
       current = None, clock = clk, ticks = 0 \<rparr>"

text \<open>\<open>time.time()\<close>: the next reading of the clock.\<close>

definition time_time :: "sys \<Rightarrow> real \<times> sys" where
  "time_time s = (clock s (ticks s), s\<lparr> ticks := Suc (ticks s) \<rparr>)"

text \<open>
  Modelled from the spec: the \<open>Context\<close> class and \<open>context_activate\<close> of the package's
  \<open>__init__\<close> module, which sessions.py imports. A context handle supports construction
  with an identifier and \<open>start()\<close>; \<open>context_activate\<close> makes a context the process-wide
  current context.
\<close>

definition Context_new :: "string \<Rightarrow> sys \<Rightarrow> nat \<times> sys" where
  "Context_new name s = (length (ctxs s), s\<lparr> ctxs := ctxs s @ [(name, False)] \<rparr>)"

definition Context_start :: "nat \<Rightarrow> sys \<Rightarrow> sys" where
  "Context_start h s = s\<lparr> ctxs := (ctxs s)[h := (fst (ctxs s ! h), True)] \<rparr>"

definition context_activate :: "nat \<Rightarrow> sys \<Rightarrow> sys" where
  "context_activate h s = s\<lparr> current := Some h \<rparr>"

text \<open>
  \<open>Session.activate\<close>, on the session object stored under \<open>key\<close>: it sets \<open>seen\<close> to the
  current time and activates the session's context.
\<close>

definition Session_activate :: "string \<Rightarrow> session \<Rightarrow> sys \<Rightarrow> sys" where
  "Session_activate key sess s =
     (let (t, s1) = time_time s;
          s2 = s1\<lparr> sessions := (sessions s1)(key \<mapsto> sess\<lparr> seen := t \<rparr>) \<rparr>
      in context_activate (sess_context sess) s2)"

text \<open>
  \<open>SessionManager.generate_name\<close>: one draw, then the loop
  \<^verbatim>\<open>while result in self.sessions: result = next(names)\<close>.
\<close>

partial_function (option) redraw :: "string \<Rightarrow> sys \<Rightarrow> (string \<times> sys) option" where
  "redraw result s =
     (if sessions s result \<noteq> None
      then (case names_next (names s) of
              None \<Rightarrow> None
            | Some (r, ns) \<Rightarrow> redraw r (s\<lparr> names := ns \<rparr>))
      else Some (result, s))"

declare redraw.simps [code]

definition generate_name :: "sys \<Rightarrow> (string \<times> sys) option" where
  "generate_name s =
     (case names_next (names s) of
        None \<Rightarrow> None
      | Some (r, ns) \<Rightarrow> redraw r (s\<lparr> names := ns \<rparr>))"

text \<open>
  \<open>SessionManager._new_session\<close>: \<open>Session(Context(name), time.time())\<close> constructs the
  context, reads the clock, and the context is then started.
\<close>

definition new_session :: "string \<Rightarrow> sys \<Rightarrow> session \<times> sys" where
  "new_session name s =
     (let (h, s1) = Context_new name s;
          (t, s2) = time_time s1;
          s3 = Context_start h s2
      in (\<lparr> sess_context = h, seen = t \<rparr>, s3))"

text \<open>
  \<open>SessionManager.activate\<close>. The subscript \<open>self.sessions[name]\<close> of the last line raises
  \<open>KeyError\<close> on a missing key.
\<close>

definition activate :: "string \<Rightarrow> sys \<Rightarrow> exn + sys" where
  "activate name s =
     (let s1 = (if sessions s name = None
                then (let (sess, s') = new_session name s
                      in s'\<lparr> sessions := (sessions s')(name \<mapsto> sess) \<rparr>)
                else s)
      in case sessions s1 name of
           None \<Rightarrow> Inl KeyError
         | Some sess \<Rightarrow> Inr (Session_activate name sess s1))"

text \<open>
  A sequence of calls on one manager, in program order: \<open>generate_name()\<close> or
  \<open>activate(name)\<close>. \<open>run\<close> returns the identifiers the \<open>generate_name\<close> calls returned, in
  order, and \<open>None\<close> when a call does not return normally.
\<close>

datatype call = Generate | Activate string

fun run :: "call list \<Rightarrow> sys \<Rightarrow> (string list \<times> sys) option" where
  "run [] s = Some ([], s)"
| "run (Generate # cs) s =
     (case generate_name s of
        None \<Rightarrow> None
      | Some (r, s') \<Rightarrow> (case run cs s' of None \<Rightarrow> None | Some (rs, s'') \<Rightarrow> Some (r # rs, s'')))"
| "run (Activate name # cs) s =
     (case activate name s of Inl e \<Rightarrow> None | Inr s' \<Rightarrow> run cs s')"

section \<open>The cookie filter\<close>

text \<open>
  The request as the filter sees it: the cookie jar parsed from the request (a
  \<open>SimpleCookie\<close>, a dictionary from cookie names to morsels), and for the event handler
  the headers (looked up by lower-case name), the body bytes that are still to arrive on
  \<open>rfile\<close>, and how the stream goes on after them: the peer ends it, or nothing more
  arrives while the connection stays open, or reading fails with an exception. A morsel
  carries its value and its \<open>path\<close> attribute, empty when not set.
\<close>

datatype ending = Eof | Stalls | Fails exn

record morsel =
  mvalue :: string
  mpath :: string

record request =
  cookies :: "string \<rightharpoonup> morsel"
  headers :: "string \<rightharpoonup> string"
  rfile :: string
  rfile_end :: ending

text \<open>What a handler does to the outside: calls on the transport and the event dispatch.\<close>

datatype json = JNull | JBool bool | JNumber int | JString string
  | JArray "json list" | JObject "(string \<times> json) list"

datatype effect =
    SendError nat "string option"
  | SendResponse nat
  | SendHeader string string
  | EndHeaders
  | NewEvent nat string json

text \<open>
  The cookie library's character classes and its quoting of a value: a value that is not
  empty and made of legal characters only is written as it is; any other value is put
  between double quotes, with \<open>"\<close> and \<open>\\<close> escaped by a backslash and every character
  that is not in \<open>unescaped_chars\<close> written as a backslash and three octal digits.
\<close>

definition legal_chars :: string where
  "legal_chars =
     ''abcdefghijklmnopqrstuvwxyzABCDEFGHIJKLMNOPQRSTUVWXYZ0123456789'' @
     [CHR ''!'', CHR ''#'', CHR ''$'', CHR ''%'', CHR ''&'', CHR 0x27, CHR ''*'', CHR ''+'',
      CHR ''-'', CHR ''.'', CHR ''^'', CHR ''_'', CHR 0x60, CHR ''|'', CHR ''~'', CHR '':'']"

definition unescaped_chars :: string where
  "unescaped_chars =
     legal_chars @ [CHR '' '', CHR ''('', CHR '')'', CHR ''/'', CHR ''<'', CHR ''='', CHR ''>'',
                    CHR ''?'', CHR ''@'', CHR ''['', CHR '']'', CHR ''{'', CHR ''}'']"

definition is_legal_key :: "string \<Rightarrow> bool" where
  "is_legal_key k \<longleftrightarrow> k \<noteq> [] \<and> (\<forall>c\<in>set k. c \<in> set legal_chars)"

definition octal_digit :: "nat \<Rightarrow> char" where
  "octal_digit d = char_of (48 + d)"

definition translate :: "char \<Rightarrow> string" where
  "translate c =
     (if c = CHR 0x22 then [CHR 0x5C, CHR 0x22]
      else if c = CHR 0x5C then [CHR 0x5C, CHR 0x5C]
      else if c \<in> set unescaped_chars then [c]
      else [CHR 0x5C, octal_digit ((of_char c :: nat) div 64),
            octal_digit ((of_char c :: nat) div 8 mod 8), octal_digit ((of_char c :: nat) mod 8)])"

definition quote :: "string \<Rightarrow> string" where
  "quote v = (if is_legal_key v then v else [CHR 0x22] @ concat (map translate v) @ [CHR 0x22])"

text \<open>
  The names the cookie library refuses for a cookie (\<open>CookieError\<close>): the attribute names
  it reserves, in any case of the letters, and every name that is empty or has a character
  that is not legal.
\<close>

definition lower :: "char \<Rightarrow> char" where
  "lower c = (if 65 \<le> (of_char c :: nat) \<and> (of_char c :: nat) \<le> 90
              then char_of ((of_char c :: nat) + 32) else c)"

definition reserved_keys :: "string list" where
  "reserved_keys = [''expires'', ''path'', ''comment'', ''domain'', ''max-age'', ''secure'',
                    ''httponly'', ''version'', ''samesite'']"

definition cookie_key_ok :: "string \<Rightarrow> bool" where
  "cookie_key_ok k \<longleftrightarrow> map lower k \<notin> set reserved_keys \<and> is_legal_key k"

text \<open>
  \<open>Morsel.output(header='')\<close> of a morsel that was set from a value: the header text, a
  blank, the name, \<open>=\<close> and the quoted value, and the attributes that are set.
\<close>

definition morsel_output :: "string \<Rightarrow> morsel \<Rightarrow> string" where
  "morsel_output key m =
     '' '' @ key @ ''='' @ quote (mvalue m) @ (if mpath m = [] then [] else ''; Path='' @ mpath m)"

text \<open>
  \<open>SessionCookie.handle\<close>. A morsel is a dictionary with its reserved attributes as keys,
  so it is always true and \<open>not morsel\<close> holds exactly when \<open>cookies.get\<close> returned \<open>None\<close>.
  Storing the new value under the manager's cookie name raises \<open>CookieError\<close> when the
  library refuses the name. The result is \<open>None\<close> when \<open>generate_name\<close> does not return;
  otherwise the exception raised, or the headers sent, the request with its updated cookie
  jar and the new state.
\<close>

definition handle :: "request \<Rightarrow> sys \<Rightarrow> (exn + effect list \<times> request \<times> sys) option" where
  "handle req s =
     (case cookies req (cookie s) of
        None \<Rightarrow>
          (case generate_name s of
             None \<Rightarrow> None
           | Some (v, s1) \<Rightarrow>
               if \<not> cookie_key_ok (cookie s1) then Some (Inl CookieError)
               else
               (let req1 = req\<lparr> cookies := (cookies req)(cookie s1 \<mapsto> \<lparr> mvalue = v, mpath = [] \<rparr>) \<rparr>;
                    req2 = req1\<lparr> cookies := (cookies req1)(cookie s1 \<mapsto> \<lparr> mvalue = v, mpath = ''/'' \<rparr>) \<rparr>;
                    hdr = SendHeader ''Set-Cookie''
                            (morsel_output (cookie s1) \<lparr> mvalue = v, mpath = ''/'' \<rparr>)
                in Some (case activate v s1 of
                           Inl e \<Rightarrow> Inl e
                         | Inr s2 \<Rightarrow> Inr ([hdr], req2, s2))))
      | Some m \<Rightarrow>
          Some (case activate (mvalue m) s of
                  Inl e \<Rightarrow> Inl e
                | Inr s2 \<Rightarrow> Inr ([], req, s2)))"
section \<open>The event handler\<close>

text \<open>
  What the handler's library calls depend on besides their arguments: \<open>sys.maxsize\<close>, the
  greatest length a \<open>bytes\<close> object can have, the greatest buffer the allocator grants, and
  \<open>sys.get_int_max_str_digits()\<close>, which is 0 in an interpreter without the limit on
  integer string conversion.
\<close>

record platform =
  maxsize :: nat
  bytes_max :: nat
  alloc_max :: nat
  max_str_digits :: nat

text \<open>
  \<open>int(x)\<close> on a header value. Header values are decoded as Latin-1, so every character
  is one of the 256 of \<open>char\<close>. Of these \<open>int\<close> takes as white space the six ASCII ones and
  U+0085 and U+00A0, and as digits only \<open>0\<close> to \<open>9\<close>. Surrounding white space is dropped;
  then comes an optional sign, then decimal digits, where single underscores may stand
  between digits. When the limit on digits is set, a text with more digits than the limit
  (and more than the 640 below which the limit is never checked) is refused. Anything
  refused raises \<open>ValueError\<close> (\<open>None\<close>).
\<close>

definition is_space :: "char \<Rightarrow> bool" where
  "is_space c \<longleftrightarrow>
     c \<in> set [CHR '' '', CHR 0x09, CHR 0x0A, CHR 0x0B, CHR 0x0C, CHR 0x0D, CHR 0x85, CHR 0xA0]"

definition is_digit :: "char \<Rightarrow> bool" where
  "is_digit c \<longleftrightarrow> c \<in> set ''0123456789''"

definition digit_val :: "char \<Rightarrow> nat" where
  "digit_val c = of_char c - 48"

definition strip :: "string \<Rightarrow> string" where
  "strip x = rev (dropWhile is_space (rev (dropWhile is_space x)))"

fun parse_digits :: "nat \<Rightarrow> string \<Rightarrow> nat option" where
  "parse_digits acc [] = Some acc"
| "parse_digits acc [c] = (if is_digit c then Some (acc * 10 + digit_val c) else None)"
| "parse_digits acc (c # d # cs) =
     (if is_digit c then parse_digits (acc * 10 + digit_val c) (d # cs)
      else if c = CHR ''_'' \<and> is_digit d then parse_digits acc (d # cs)
      else None)"

definition too_many_digits :: "platform \<Rightarrow> string \<Rightarrow> bool" where
  "too_many_digits p x \<longleftrightarrow>
     640 < length (filter is_digit x) \<and> 0 < max_str_digits p \<and>
     max_str_digits p < length (filter is_digit x)"

definition parse_nat :: "platform \<Rightarrow> string \<Rightarrow> nat option" where
  "parse_nat p x =
     (case x of
        [] \<Rightarrow> None
      | c # cs \<Rightarrow> if is_digit c \<and> \<not> too_many_digits p x then parse_digits 0 x else None)"

definition py_int :: "platform \<Rightarrow> string \<Rightarrow> int option" where
  "py_int p x =
     (case strip x of
        [] \<Rightarrow> None
      | c # cs \<Rightarrow>
          if c = CHR ''-'' then map_option (\<lambda>n. - int n) (parse_nat p cs)
          else if c = CHR ''+'' then map_option int (parse_nat p cs)
          else map_option int (parse_nat p (c # cs)))"

text \<open>
  The integer literals \<open>int\<close> accepts, as its documentation words them: digits, with leading
  zeros allowed and single underscores interspersed between digits, optionally preceded
  by \<open>+\<close> or \<open>-\<close> with no space in between, and surrounded by white space. \<open>literal_value\<close>
  is the number such a literal denotes.
\<close>

fun digit_run :: "string \<Rightarrow> bool" where
  "digit_run [] = False"
| "digit_run [c] = is_digit c"
| "digit_run (c # d # cs) =
     (is_digit c \<and> (if d = CHR ''_'' then digit_run cs else digit_run (d # cs)))"

definition unsigned :: "string \<Rightarrow> string" where
  "unsigned x = (case x of [] \<Rightarrow> [] | c # cs \<Rightarrow> if c = CHR ''-'' \<or> c = CHR ''+'' then cs else x)"

definition valid_int_literal :: "string \<Rightarrow> bool" where
  "valid_int_literal x \<longleftrightarrow> digit_run (unsigned (strip x))"

definition digits_value :: "string \<Rightarrow> nat" where
  "digits_value x = foldl (\<lambda>a c. a * 10 + digit_val c) 0 (filter is_digit x)"

definition literal_value :: "string \<Rightarrow> int" where
  "literal_value x =
     (if take 1 (strip x) = ''-'' then - int (digits_value x) else int (digits_value x))"

text \<open>
  \<open>rfile.read(length)\<close> on the buffered reader of the connection, on which the bytes
  \<open>bs\<close> arrive and which then goes on as \<open>e\<close> says. The size has to fit an index
  (\<open>OverflowError\<close> otherwise); \<open>-1\<close> reads to the end of the stream and any other
  negative size raises \<open>ValueError\<close>; for a size that is not negative a buffer of that
  size is allocated first, which raises \<open>OverflowError\<close> when no \<open>bytes\<close> object can be
  that long and \<open>MemoryError\<close> when the allocator refuses. Then the call reads until it
  has that many bytes or the stream ends: it returns what it has at the end of the
  stream, never returns (\<open>None\<close>) when it waits for bytes that do not arrive, and raises
  when reading fails.
\<close>

definition rfile_read :: "platform \<Rightarrow> int \<Rightarrow> string \<Rightarrow> ending \<Rightarrow> (exn + string) option" where
  "rfile_read p n bs e =
     (if n < - int (maxsize p) - 1 \<or> int (maxsize p) < n then Some (Inl OverflowError)
      else if n < - 1 then Some (Inl ValueError)
      else if 0 \<le> n \<and> bytes_max p < nat n then Some (Inl OverflowError)
      else if 0 \<le> n \<and> alloc_max p < nat n then Some (Inl MemoryError)
      else if 0 \<le> n \<and> nat n \<le> length bs then Some (Inr (take (nat n) bs))
      else (case e of Eof \<Rightarrow> Some (Inr bs) | Stalls \<Rightarrow> None | Fails x \<Rightarrow> Some (Inl x)))"

text \<open>\<open>isinstance(structured, Mapping)\<close> on a decoded JSON value.\<close>

fun is_Mapping :: "json \<Rightarrow> bool" where
  "is_Mapping (JObject kvs) = True"
| "is_Mapping v = False"

text \<open>
  Modelled from the spec: \<open>new_event\<close> of the package's \<open>__init__\<close> module, the event
  dispatch. It fails with the no-current-context condition (\<open>NotImplementedError\<close>) when no
  context has ever been activated, and otherwise delivers the event to the current context.
\<close>

definition new_event :: "string \<Rightarrow> json \<Rightarrow> sys \<Rightarrow> exn + nat" where
  "new_event name payload s = (case current s of None \<Rightarrow> Inl NotImplementedError | Some h \<Rightarrow> Inr h)"

text \<open>
  \<open>EventHandler.handle_POST\<close> of \<open>GenerateEvent(name)\<close>. \<open>loads\<close> stands for
  \<open>json.loads(data.decode('utf-8'))\<close>: it returns the decoded value, or the class and the
  text of the exception the decoding raised, which need not be a \<open>ValueError\<close>
  (\<open>RecursionError\<close> on deeply nested input). Only the two \<open>try\<close> blocks of the source catch
  anything: the conversion of the header and the read are outside them. The result is
  \<open>None\<close> when the handler never returns; otherwise it gives what was sent, the bytes read
  from \<open>rfile\<close>, and the exception that left the handler, if any.
\<close>

record post_result =
  effects :: "effect list"
  consumed :: string
  raised :: "exn option"

definition handle_POST ::
  "platform \<Rightarrow> string \<Rightarrow> (string \<Rightarrow> exn \<times> string + json) \<Rightarrow> request \<Rightarrow> sys \<Rightarrow>
     post_result option" where
  "handle_POST p name loads req s =
     (case headers req ''content-length'' of
        None \<Rightarrow> Some \<lparr> effects = [SendError 411 None], consumed = [], raised = None \<rparr>
      | Some v \<Rightarrow>
          (case py_int p v of
             None \<Rightarrow> Some \<lparr> effects = [], consumed = [], raised = Some ValueError \<rparr>
           | Some len \<Rightarrow>
               (case rfile_read p len (rfile req) (rfile_end req) of
                  None \<Rightarrow> None
                | Some (Inl e) \<Rightarrow> Some \<lparr> effects = [], consumed = [], raised = Some e \<rparr>
                | Some (Inr data) \<Rightarrow>
                    Some (case loads data of
                       Inl (e, msg) \<Rightarrow>
                         if e = ValueError
                         then \<lparr> effects = [SendError 400 (Some (''Bad request: '' @ msg))],
                                consumed = data, raised = None \<rparr>
                         else \<lparr> effects = [], consumed = data, raised = Some e \<rparr>
                     | Inr structured \<Rightarrow>
                         if \<not> is_Mapping structured
                         then \<lparr> effects = [SendError 400 (Some ''Bad request: expect a JSON object'')],
                                consumed = data, raised = None \<rparr>
                         else (case new_event name structured s of
                                 Inl e \<Rightarrow>
                                   if e = NotImplementedError
                                   then \<lparr> effects = [SendError 500 (Some ''No current context available.'')],
                                          consumed = data, raised = None \<rparr>
                                   else \<lparr> effects = [], consumed = data, raised = Some e \<rparr>
                               | Inr h \<Rightarrow>
                                   \<lparr> effects = [NewEvent h name structured, SendResponse 202,
                                                SendHeader ''content-type'' ''text/plain; charset=utf-8'',
                                                SendHeader ''content-length'' ''0'', EndHeaders],
                                     consumed = data, raised = None \<rparr>)))))"
section \<open>Invariants of the name iterator\<close>

text \<open>
  The words of both vocabularies.
\<close>

definition vocab :: "string set" where
  "vocab = set letters0 \<union> set colours0"

text \<open>
  What holds of every state of \<open>names\<close> the program can reach: the two lists are
  permutations of the vocabularies; once started, \<open>parts\<close> is \<open>letters\<close>, \<open>colours\<close> and
  then only \<open>letters\<close>; the tuples still pending are distinct, as long as \<open>parts\<close> and made
  of vocabulary words.
\<close>

definition names_ok :: "names_state \<Rightarrow> bool" where
  "names_ok s \<longleftrightarrow>
     mset (letters s) = mset letters0 \<and> mset (colours s) = mset colours0 \<and>
     (if started s
      then 2 \<le> length (parts s) \<and> take 2 (parts s) = [Letters, Colours] \<and>
           (\<forall>w\<in>set (drop 2 (parts s)). w = Letters)
      else parts s = [] \<and> pending s = []) \<and>
     distinct (pending s) \<and>
     (\<forall>t\<in>set (pending s). length t = length (parts s) \<and> set t \<subseteq> vocab)"

text \<open>
  A set of names already drawn is behind the iterator: none has more components than the
  current stage, and none is still pending.
\<close>

definition avoids :: "string set \<Rightarrow> names_state \<Rightarrow> bool" where
  "avoids A s \<longleftrightarrow>
     (\<forall>x\<in>A. count_list x (CHR ''-'') < length (parts s)) \<and>
     (\<forall>t\<in>set (pending s). join t \<notin> A)"


text \<open>The invariant of the whole state: a Python dictionary is finite.\<close>

definition sys_ok :: "sys \<Rightarrow> bool" where
  "sys_ok s \<longleftrightarrow> names_ok (names s) \<and> finite (dom (sessions s))"

text \<open>
  The tuples of stage 0: the product the iterator builds when it is first drawn from, after
  the first shuffle of each vocabulary (23 random values go into shuffling the 24 letters).
\<close>

definition stage0 :: "(nat \<Rightarrow> nat) \<Rightarrow> string list list" where
  "stage0 r = product_lists [shuffle r 0 letters0, shuffle r 23 colours0]"


text \<open>
  The status codes a handler sent, in order: one for every \<open>send_error\<close> and every
  \<open>send_response\<close>.
\<close>

fun status_of :: "effect \<Rightarrow> nat list" where
  "status_of (SendError c m) = [c]"
| "status_of (SendResponse c) = [c]"
| "status_of e = []"

definition statuses :: "effect list \<Rightarrow> nat list" where
  "statuses es = concat (map status_of es)"

text \<open>
  A platform to evaluate on: a 64-bit interpreter with the default limit of 4300 digits,
  where a \<open>bytes\<close> object has 33 bytes of overhead and 4 GiB can be allocated.
\<close>

definition cpython64 :: platform where
  "cpython64 = \<lparr> maxsize = 2 ^ 63 - 1, bytes_max = 2 ^ 63 - 34, alloc_max = 2 ^ 32,
                   max_str_digits = 4300 \<rparr>"
section \<open>Properties of shuffling, joining and the name iterator\<close>

lemma mset_swap_l: "i < length xs \<Longrightarrow> j < length xs \<Longrightarrow> mset (swap i j xs) = mset xs"
  unfolding swap_def by (simp add: mset_swap)

lemma length_swap_l: "length (swap i j xs) = length xs"
  by (simp add: swap_def)

lemma mset_fisher_yates: "i < length xs \<Longrightarrow> mset (fisher_yates i r p xs) = mset xs"
proof (induction i arbitrary: p xs)
  case 0 then show ?case by simp
next
  case (Suc i)
  have j: "r p mod Suc (Suc i) < length xs"
    using Suc.prems by (meson Suc_leI less_le_trans mod_less_divisor zero_less_Suc)
  have "mset (swap (Suc i) (r p mod Suc (Suc i)) xs) = mset xs"
    using Suc.prems j by (rule mset_swap_l)
  moreover have "i < length (swap (Suc i) (r p mod Suc (Suc i)) xs)"
    using Suc.prems by (simp add: length_swap_l)
  ultimately show ?case using Suc.IH by simp
qed

lemma mset_shuffle: "mset (shuffle r p xs) = mset xs"
proof (cases xs)
  case Nil then show ?thesis by (simp add: shuffle_def)
next
  case (Cons a as)
  then show ?thesis unfolding shuffle_def by (intro mset_fisher_yates) simp
qed

lemma vocab_dashfree: "w \<in> vocab \<Longrightarrow> CHR ''-'' \<notin> set w"
  by (auto simp: vocab_def letters0_def colours0_def)

lemma distinct_letters0: "distinct letters0"
  by (simp add: letters0_def)

lemma distinct_colours0: "distinct colours0"
  by (simp add: colours0_def)

lemma count_join:
  "t \<noteq> [] \<Longrightarrow> \<forall>w\<in>set t. CHR ''-'' \<notin> set w \<Longrightarrow> Suc (count_list (join t) (CHR ''-'')) = length t"
proof (induction t rule: join.induct)
  case 1 then show ?case by simp
next
  case (2 w) then show ?case by (simp add: count_list_0_iff)
next
  case (3 w v ws)
  then show ?case by (simp add: count_list_0_iff)
qed

lemma dashfree_split:
  "CHR ''-'' \<notin> set a \<Longrightarrow> CHR ''-'' \<notin> set b \<Longrightarrow> a @ CHR ''-'' # x = b @ CHR ''-'' # y \<Longrightarrow> a = b \<and> x = y"
proof (induction a arbitrary: b)
  case Nil then show ?case by (cases b) auto
next
  case (Cons c a) then show ?case by (cases b) auto
qed

lemma join_inj:
  "length t = length u \<Longrightarrow> \<forall>w\<in>set t. CHR ''-'' \<notin> set w \<Longrightarrow> \<forall>w\<in>set u. CHR ''-'' \<notin> set w \<Longrightarrow>
   join t = join u \<Longrightarrow> t = u"
proof (induction t u rule: list_induct2)
  case Nil then show ?case by simp
next
  case (Cons x xs y ys)
  show ?case
  proof (cases xs)
    case Nil
    with Cons show ?thesis by simp
  next
    case (Cons a as)
    then obtain b bs where ys: "ys = b # bs" using Cons.hyps by (cases ys) auto
    from Cons.prems(3) have "x @ CHR ''-'' # join xs = y @ CHR ''-'' # join ys"
      using Cons ys by simp
    moreover have "CHR ''-'' \<notin> set x" "CHR ''-'' \<notin> set y" using Cons.prems by auto
    ultimately have "x = y \<and> join xs = join ys" by (metis dashfree_split)
    then show ?thesis using Cons.IH Cons.prems by auto
  qed
qed

lemma perm_letters0:
  assumes "mset xs = mset letters0"
  shows "xs \<noteq> []" "distinct xs" "set xs = set letters0"
proof -
  have "length xs = length letters0" using assms by (rule mset_eq_length)
  then show "xs \<noteq> []" by (auto simp: letters0_def)
  show "distinct xs" using mset_eq_imp_distinct_iff [OF assms] distinct_letters0 by simp
  show "set xs = set letters0" using assms by (rule mset_eq_setD)
qed

lemma perm_colours0:
  assumes "mset xs = mset colours0"
  shows "xs \<noteq> []" "distinct xs" "set xs = set colours0"
proof -
  have "length xs = length colours0" using assms by (rule mset_eq_length)
  then show "xs \<noteq> []" by (auto simp: colours0_def)
  show "distinct xs" using mset_eq_imp_distinct_iff [OF assms] distinct_colours0 by simp
  show "set xs = set colours0" using assms by (rule mset_eq_setD)
qed

lemma name_parts_next_fields:
  "letters (name_parts_next s) = shuffle (rnd s) (rpos s) (letters s)"
  "colours (name_parts_next s) = shuffle (rnd s) (rpos s + (length (letters s) - 1)) (colours s)"
  "parts (name_parts_next s) = (if started s then parts s @ [Letters] else [Letters, Colours])"
  "started (name_parts_next s)"
  "pending (name_parts_next s) = pending s"
  by (simp_all add: name_parts_next_def shuffle_letters_def shuffle_colours_def Let_def)

lemma advance_fields:
  "letters (advance s) = shuffle (rnd s) (rpos s) (letters s)"
  "colours (advance s) = shuffle (rnd s) (rpos s + (length (letters s) - 1)) (colours s)"
  "parts (advance s) = (if started s then parts s @ [Letters] else [Letters, Colours])"
  "started (advance s)"
  "pending (advance s) = product_lists (map (resolve (name_parts_next s)) (parts (name_parts_next s)))"
  by (simp_all add: advance_def Let_def name_parts_next_fields product_of_def)

lemma product_lists_nonempty: "\<forall>xs\<in>set xss. xs \<noteq> [] \<Longrightarrow> product_lists xss \<noteq> []"
  by (induction xss) auto

lemma product_lists_member:
  "t \<in> set (product_lists xss) \<Longrightarrow> x \<in> set t \<Longrightarrow> \<exists>ys\<in>set xss. x \<in> set ys"
proof (induction xss arbitrary: t)
  case Nil then show ?case by simp
next
  case (Cons a xss)
  from Cons.prems(1) obtain y u where t: "t = y # u" "y \<in> set a" "u \<in> set (product_lists xss)"
    by auto
  show ?case
  proof (cases "x = y")
    case True then show ?thesis using t by auto
  next
    case False
    then have "x \<in> set u" using Cons.prems(2) t by simp
    then show ?thesis using Cons.IH [OF t(3)] by auto
  qed
qed

lemma product_lists_elem:
  "t \<in> set (product_lists xss) \<Longrightarrow> length t = length xss \<and> set t \<subseteq> \<Union> (set ` set xss)"
  using product_lists_member [of t xss] in_set_product_lists_length [of t xss] by auto

lemma names_ok_advance:
  assumes ok: "names_ok s"
  shows "names_ok (advance s)" "pending (advance s) \<noteq> []" "length (parts s) < length (parts (advance s))"
proof -
  let ?s = "name_parts_next s"
  have ml: "mset (letters ?s) = mset letters0" and mc: "mset (colours ?s) = mset colours0"
    using ok by (simp_all add: name_parts_next_fields mset_shuffle names_ok_def)
  note pl = perm_letters0 [OF ml] and pc = perm_colours0 [OF mc]
  have res: "\<And>w. resolve ?s w \<noteq> [] \<and> distinct (resolve ?s w) \<and> set (resolve ?s w) \<subseteq> vocab"
  proof -
    fix w
    show "resolve ?s w \<noteq> [] \<and> distinct (resolve ?s w) \<and> set (resolve ?s w) \<subseteq> vocab"
      using pl pc by (cases w) (simp_all add: resolve_def vocab_def)
  qed
  have pend: "pending (advance s) = product_lists (map (resolve ?s) (parts ?s))"
    by (simp add: advance_fields)
  show "pending (advance s) \<noteq> []"
    unfolding pend by (rule product_lists_nonempty) (use res in auto)
  have dist: "distinct (pending (advance s))"
    unfolding pend by (rule distinct_product_lists) (use res in auto)
  have el: "\<forall>t\<in>set (pending (advance s)). length t = length (parts (advance s)) \<and> set t \<subseteq> vocab"
  proof
    fix t assume "t \<in> set (pending (advance s))"
    then have "length t = length (map (resolve ?s) (parts ?s)) \<and> set t \<subseteq> \<Union> (set ` set (map (resolve ?s) (parts ?s)))"
      unfolding pend by (rule product_lists_elem)
    then have l: "length t = length (parts ?s)"
      and sub: "set t \<subseteq> (\<Union>w\<in>set (parts ?s). set (resolve ?s w))" by simp_all
    have "set t \<subseteq> vocab"
    proof
      fix x assume "x \<in> set t"
      then obtain w where "x \<in> set (resolve ?s w)" using sub by blast
      then show "x \<in> vocab" using res [of w] by blast
    qed
    moreover have "parts (advance s) = parts ?s"
      by (simp add: advance_fields name_parts_next_fields)
    ultimately show "length t = length (parts (advance s)) \<and> set t \<subseteq> vocab"
      using l by simp
  qed
  have a1: "mset (letters (advance s)) = mset letters0"
    using ml by (simp add: advance_fields name_parts_next_fields)
  have a2: "mset (colours (advance s)) = mset colours0"
    using mc by (simp add: advance_fields name_parts_next_fields)
  have a3: "started (advance s)" by (simp add: advance_fields)
  have shape: "2 \<le> length (parts (advance s)) \<and> take 2 (parts (advance s)) = [Letters, Colours] \<and>
               (\<forall>w\<in>set (drop 2 (parts (advance s))). w = Letters)"
  proof (cases "started s")
    case True
    then have "2 \<le> length (parts s) \<and> take 2 (parts s) = [Letters, Colours] \<and>
               (\<forall>w\<in>set (drop 2 (parts s)). w = Letters)"
      using ok by (simp add: names_ok_def)
    then show ?thesis using True by (auto simp: advance_fields)
  next
    case False then show ?thesis by (simp add: advance_fields)
  qed
  show "names_ok (advance s)"
    unfolding names_ok_def if_P [OF a3] by (intro conjI a1 a2 dist el) (use shape in blast)+
  show "length (parts s) < length (parts (advance s))"
    using ok by (auto simp: advance_fields names_ok_def split: if_splits)
qed

lemma names_next_Cons: "pending s = t # ts \<Longrightarrow> names_next s = Some (join t, s\<lparr> pending := ts \<rparr>)"
  by (subst names_next.simps) simp

lemma names_next_Nil: "pending s = [] \<Longrightarrow> names_next s = names_next (advance s)"
  by (subst names_next.simps) simp

lemma names_ok_tail:
  assumes "names_ok s" "pending s = t # ts"
  shows "names_ok (s\<lparr> pending := ts \<rparr>)"
  using assms by (auto simp: names_ok_def split: if_splits)

lemma avoids_mono: "avoids B s \<Longrightarrow> A \<subseteq> B \<Longrightarrow> avoids A s"
  by (auto simp: avoids_def)

lemma step_Cons:
  assumes ok: "names_ok s" and av: "avoids A s" and p: "pending s = t # ts"
  shows "join t \<notin> A" "avoids (insert (join t) A) (s\<lparr> pending := ts \<rparr>)"
proof -
  show "join t \<notin> A" using av p by (simp add: avoids_def)
  have lt: "length t = length (parts s)" and vt: "set t \<subseteq> vocab"
    using ok p by (simp_all add: names_ok_def)
  have ne: "parts s \<noteq> []" using ok p by (auto simp: names_ok_def split: if_splits)
  then have tne: "t \<noteq> []" using lt by auto
  have dft: "\<forall>w\<in>set t. CHR ''-'' \<notin> set w" using vt vocab_dashfree by auto
  have cnt: "Suc (count_list (join t) (CHR ''-'')) = length t"
    using tne dft by (rule count_join)
  have "\<forall>u\<in>set ts. join u \<noteq> join t"
  proof
    fix u assume u: "u \<in> set ts"
    then have lu: "length u = length t" and vu: "set u \<subseteq> vocab" and ut: "u \<noteq> t"
      using ok p lt by (auto simp: names_ok_def)
    have dfu: "\<forall>w\<in>set u. CHR ''-'' \<notin> set w" using vu vocab_dashfree by auto
    show "join u \<noteq> join t" using join_inj [OF lu dfu dft] ut by blast
  qed
  then show "avoids (insert (join t) A) (s\<lparr> pending := ts \<rparr>)"
    using av p cnt lt by (auto simp: avoids_def)
qed

lemma avoids_advance:
  assumes ok: "names_ok s" and av: "avoids A s"
  shows "avoids A (advance s)"
proof -
  have ok': "names_ok (advance s)" and lt: "length (parts s) < length (parts (advance s))"
    using names_ok_advance [OF ok] by simp_all
  have "\<forall>t\<in>set (pending (advance s)). join t \<notin> A"
  proof
    fix t assume t: "t \<in> set (pending (advance s))"
    then have l: "length t = length (parts (advance s))" and v: "set t \<subseteq> vocab"
      using ok' by (simp_all add: names_ok_def)
    have "t \<noteq> []" using l lt by auto
    moreover have "\<forall>w\<in>set t. CHR ''-'' \<notin> set w" using v vocab_dashfree by auto
    ultimately have "Suc (count_list (join t) (CHR ''-'')) = length t" by (rule count_join)
    then have "\<not> count_list (join t) (CHR ''-'') < length (parts s)" using l lt by simp
    then show "join t \<notin> A" using av by (auto simp: avoids_def)
  qed
  then show ?thesis using av lt by (auto simp: avoids_def)
qed

lemma names_next_step:
  assumes ok: "names_ok s" and av: "avoids A s"
  shows "\<exists>x s'. names_next s = Some (x, s') \<and> names_ok s' \<and> x \<notin> A \<and> avoids (insert x A) s'"
proof -
  have main: "\<And>s. names_ok s \<Longrightarrow> avoids A s \<Longrightarrow> pending s \<noteq> [] \<Longrightarrow>
     \<exists>x s'. names_next s = Some (x, s') \<and> names_ok s' \<and> x \<notin> A \<and> avoids (insert x A) s'"
  proof -
    fix s assume ok: "names_ok s" and av: "avoids A s" and ne: "pending s \<noteq> []"
    then obtain t ts where p: "pending s = t # ts" by (cases "pending s") auto
    show "\<exists>x s'. names_next s = Some (x, s') \<and> names_ok s' \<and> x \<notin> A \<and> avoids (insert x A) s'"
      using names_next_Cons [OF p] names_ok_tail [OF ok p] step_Cons [OF ok av p] by blast
  qed
  show ?thesis
  proof (cases "pending s")
    case Nil
    have "names_next s = names_next (advance s)" using Nil by (rule names_next_Nil)
    then show ?thesis
      using main [of "advance s"] names_ok_advance [OF ok] avoids_advance [OF ok av] by simp
  next
    case (Cons t ts)
    then show ?thesis using main [OF ok av] by simp
  qed
qed

lemma draws_step:
  "names_ok s \<Longrightarrow> avoids A s \<Longrightarrow>
   \<exists>xs s'. draws n s = Some (xs, s') \<and> length xs = n \<and> distinct xs \<and> set xs \<inter> A = {} \<and>
           names_ok s' \<and> avoids (A \<union> set xs) s'"
proof (induction n arbitrary: s A)
  case 0 then show ?case by simp
next
  case (Suc n)
  from names_next_step [OF Suc.prems] obtain x s1 where
    x: "names_next s = Some (x, s1)" "names_ok s1" "x \<notin> A" "avoids (insert x A) s1" by blast
  from Suc.IH [OF x(2) x(4)] obtain xs s2 where
    xs: "draws n s1 = Some (xs, s2)" "length xs = n" "distinct xs" "set xs \<inter> insert x A = {}"
        "names_ok s2" "avoids (insert x A \<union> set xs) s2" by blast
  have "draws (Suc n) s = Some (x # xs, s2)" using x(1) xs(1) by simp
  moreover have "distinct (x # xs)" using xs(3,4) by auto
  moreover have "set (x # xs) \<inter> A = {}" using x(3) xs(4) by auto
  moreover have "avoids (A \<union> set (x # xs)) s2" using xs(6) by (simp add: Un_commute insert_commute) 
  moreover have "length (x # xs) = Suc n" using xs(2) by simp
  ultimately show ?case using xs(5) by blast
qed

lemma names_ok_init: "names_ok (names_init r)"
  by (simp add: names_ok_def names_init_def)

lemma avoids_empty: "avoids {} s"
  by (simp add: avoids_def)

section \<open>The first stage\<close>

lemma draws_pending:
  "n \<le> length (pending s) \<Longrightarrow>
   draws n s = Some (map join (take n (pending s)), s\<lparr> pending := drop n (pending s) \<rparr>)"
proof (induction n arbitrary: s)
  case 0 then show ?case by simp
next
  case (Suc n)
  then obtain t ts where p: "pending s = t # ts" by (cases "pending s") auto
  have "n \<le> length (pending (s\<lparr> pending := ts \<rparr>))" using Suc.prems p by simp
  from Suc.IH [OF this] show ?case using names_next_Cons [OF p] p by simp
qed

lemma draws_Suc_advance: "pending s = [] \<Longrightarrow> draws (Suc n) s = draws (Suc n) (advance s)"
  by (simp add: names_next_Nil)

lemma length_letters0: "length letters0 = 24"
  by (simp add: letters0_def)

lemma length_colours0: "length colours0 = 6"
  by (simp add: colours0_def)

lemma pending_advance_init: "pending (advance (names_init r)) = stage0 r"
  by (simp add: advance_fields name_parts_next_fields names_init_def resolve_def stage0_def
      length_letters0 del: product_lists.simps)

lemma set_product2: "set (product_lists [xs, ys]) = {[x, y] | x y. x \<in> set xs \<and> y \<in> set ys}"
  by auto

lemma length_product2: "length (product_lists [xs, ys]) = length xs * length ys"
  by (simp add: length_product_lists del: product_lists.simps)

lemma length_shuffle: "length (shuffle r p xs) = length xs"
  using mset_shuffle [of r p xs] by (rule mset_eq_length)

lemma length_stage0: "length (stage0 r) = 144"
  by (simp add: stage0_def length_product2 length_shuffle length_letters0 length_colours0
      del: product_lists.simps)

lemma set_stage0: "set (stage0 r) = {[l, c] | l c. l \<in> set letters0 \<and> c \<in> set colours0}"
  unfolding stage0_def set_product2
  using mset_eq_setD [OF mset_shuffle [of r 0 letters0]] mset_eq_setD [OF mset_shuffle [of r 23 colours0]]
  by simp

section \<open>Properties of \<open>generate_name\<close>\<close>

lemma redraw_total:
  assumes "finite D" "D = dom (sessions s)" "names_ok (names s)"
    "avoids (insert x A) (names s)" "x \<notin> A"
  shows "\<exists>r ns k xs. redraw x s = Some (r, s\<lparr> names := ns \<rparr>) \<and> names_ok ns \<and> r \<notin> A \<and>
           sessions s r = None \<and> avoids (insert r A) ns \<and>
           k \<le> card (D - A) \<and> draws k (names s) = Some (xs, ns) \<and> r = last (x # xs) \<and>
           set (butlast (x # xs)) \<subseteq> D"
  using assms
proof (induction "card (D - A)" arbitrary: x A s rule: less_induct)
  case less
  note fin = less.prems(1) and D = less.prems(2) and ok = less.prems(3)
    and av = less.prems(4) and xA = less.prems(5)
  show ?case
  proof (cases "sessions s x = None")
    case True
    have e: "redraw x s = Some (x, s\<lparr> names := names s \<rparr>)"
      using True by (subst redraw.simps) simp
    have "redraw x s = Some (x, s\<lparr> names := names s \<rparr>) \<and> names_ok (names s) \<and> x \<notin> A \<and>
           sessions s x = None \<and> avoids (insert x A) (names s) \<and>
           0 \<le> card (D - A) \<and> draws 0 (names s) = Some ([], names s) \<and> x = last (x # []) \<and>
           set (butlast (x # [])) \<subseteq> D"
      by (intro conjI e ok xA True av) simp_all
    then show ?thesis
      by (intro exI [of _ x] exI [of _ "names s"] exI [of _ "0::nat"] exI [of _ "[]"])
  next
    case False
    then have xD: "x \<in> D - A" unfolding D using xA by (simp add: domIff)
    obtain y ns1 where y: "names_next (names s) = Some (y, ns1)" "names_ok ns1"
      "y \<notin> insert x A" "avoids (insert y (insert x A)) ns1"
      using names_next_step [OF ok av] by blast
    let ?s = "s\<lparr> names := ns1 \<rparr>"
    have lt: "card (D - insert x A) < card (D - A)"
    proof (rule psubset_card_mono)
      show "finite (D - A)" using fin by simp
      show "D - insert x A \<subset> D - A" using xD by blast
    qed
    have D': "D = dom (sessions ?s)" using D by simp
    have ok': "names_ok (names ?s)" using y(2) by simp
    have av': "avoids (insert y (insert x A)) (names ?s)" using y(4) by simp
    have "\<exists>r ns k xs. redraw y ?s = Some (r, ?s\<lparr> names := ns \<rparr>) \<and> names_ok ns \<and> r \<notin> insert x A \<and>
           sessions ?s r = None \<and> avoids (insert r (insert x A)) ns \<and>
           k \<le> card (D - insert x A) \<and> draws k (names ?s) = Some (xs, ns) \<and> r = last (y # xs) \<and>
           set (butlast (y # xs)) \<subseteq> D"
      by (rule less.hyps [OF lt fin D' ok' av' y(3)])
    then obtain r ns k xs where r0: "redraw y ?s = Some (r, ?s\<lparr> names := ns \<rparr>) \<and> names_ok ns \<and>
           r \<notin> insert x A \<and>
           sessions ?s r = None \<and> avoids (insert r (insert x A)) ns \<and>
           k \<le> card (D - insert x A) \<and> draws k (names ?s) = Some (xs, ns) \<and> r = last (y # xs) \<and>
           set (butlast (y # xs)) \<subseteq> D"
      by (elim exE)
    have "redraw y ?s = Some (r, ?s\<lparr> names := ns \<rparr>)" using r0 by (elim conjE)
    then have r1: "redraw y ?s = Some (r, s\<lparr> names := ns \<rparr>)" by simp
    have r2: "names_ok ns" using r0 by (elim conjE)
    have r3: "r \<notin> insert x A" using r0 by (elim conjE)
    have "sessions ?s r = None" using r0 by (elim conjE)
    then have r4: "sessions s r = None" by simp
    have r5: "avoids (insert r (insert x A)) ns" using r0 by (elim conjE)
    have r6: "k \<le> card (D - insert x A)" using r0 by (elim conjE)
    have "draws k (names ?s) = Some (xs, ns)" using r0 by (elim conjE)
    then have r7: "draws k ns1 = Some (xs, ns)" by simp
    have r8: "r = last (y # xs)" using r0 by (elim conjE)
    have r9: "set (butlast (y # xs)) \<subseteq> D" using r0 by (elim conjE)
    have c1: "redraw x s = Some (r, s\<lparr> names := ns \<rparr>)"
      using False y(1) r1 by (subst redraw.simps) simp
    have c3: "r \<notin> A" using r3 by simp
    have c5: "avoids (insert r A) ns" using r5 by (rule avoids_mono) auto
    have c6: "Suc k \<le> card (D - A)" using r6 lt by simp
    have c7: "draws (Suc k) (names s) = Some (y # xs, ns)" using y(1) r7 by simp
    have c8: "r = last (x # y # xs)" using r8 by simp
    have c9: "set (butlast (x # y # xs)) \<subseteq> D" using r9 xD by simp
    have "redraw x s = Some (r, s\<lparr> names := ns \<rparr>) \<and> names_ok ns \<and> r \<notin> A \<and>
           sessions s r = None \<and> avoids (insert r A) ns \<and>
           Suc k \<le> card (D - A) \<and> draws (Suc k) (names s) = Some (y # xs, ns) \<and> r = last (x # y # xs) \<and>
           set (butlast (x # y # xs)) \<subseteq> D"
      by (intro conjI c1 r2 c3 r4 c5 c6 c7 c8 c9)
    then show ?thesis
      by (intro exI [of _ r] exI [of _ ns] exI [of _ "Suc k"] exI [of _ "y # xs"])
  qed
qed

lemma generate_name_total:
  assumes "sys_ok s" "avoids A (names s)"
  shows "\<exists>r ns k xs. generate_name s = Some (r, s\<lparr> names := ns \<rparr>) \<and> names_ok ns \<and> r \<notin> A \<and>
           sessions s r = None \<and> avoids (insert r A) ns \<and>
           k \<le> card (dom (sessions s)) \<and> draws (Suc k) (names s) = Some (xs, ns) \<and> r = last xs \<and>
           set (butlast xs) \<subseteq> dom (sessions s)"
proof -
  have ok: "names_ok (names s)" and fin: "finite (dom (sessions s))"
    using assms(1) by (simp_all add: sys_ok_def)
  obtain x ns1 where x: "names_next (names s) = Some (x, ns1)" "names_ok ns1"
      "x \<notin> A" "avoids (insert x A) ns1"
    using names_next_step [OF ok assms(2)] by blast
  let ?s = "s\<lparr> names := ns1 \<rparr>"
  have D': "dom (sessions s) = dom (sessions ?s)" by simp
  have ok': "names_ok (names ?s)" using x(2) by simp
  have av': "avoids (insert x A) (names ?s)" using x(4) by simp
  have "\<exists>r ns k xs. redraw x ?s = Some (r, ?s\<lparr> names := ns \<rparr>) \<and> names_ok ns \<and> r \<notin> A \<and>
           sessions ?s r = None \<and> avoids (insert r A) ns \<and>
           k \<le> card (dom (sessions s) - A) \<and> draws k (names ?s) = Some (xs, ns) \<and> r = last (x # xs) \<and>
           set (butlast (x # xs)) \<subseteq> dom (sessions s)"
    by (rule redraw_total [OF fin D' ok' av' x(3)])
  then obtain r ns k xs where r0: "redraw x ?s = Some (r, ?s\<lparr> names := ns \<rparr>) \<and> names_ok ns \<and>
           r \<notin> A \<and>
           sessions ?s r = None \<and> avoids (insert r A) ns \<and>
           k \<le> card (dom (sessions s) - A) \<and> draws k (names ?s) = Some (xs, ns) \<and> r = last (x # xs) \<and>
           set (butlast (x # xs)) \<subseteq> dom (sessions s)"
    by (elim exE)
  have "redraw x ?s = Some (r, ?s\<lparr> names := ns \<rparr>)" using r0 by (elim conjE)
  then have r1: "redraw x ?s = Some (r, s\<lparr> names := ns \<rparr>)" by simp
  have r2: "names_ok ns" using r0 by (elim conjE)
  have r3: "r \<notin> A" using r0 by (elim conjE)
  have "sessions ?s r = None" using r0 by (elim conjE)
  then have r4: "sessions s r = None" by simp
  have r5: "avoids (insert r A) ns" using r0 by (elim conjE)
  have r6: "k \<le> card (dom (sessions s) - A)" using r0 by (elim conjE)
  have "draws k (names ?s) = Some (xs, ns)" using r0 by (elim conjE)
  then have r7: "draws k ns1 = Some (xs, ns)" by simp
  have r8: "r = last (x # xs)" using r0 by (elim conjE)
  have r9: "set (butlast (x # xs)) \<subseteq> dom (sessions s)" using r0 by (elim conjE)
  have c1: "generate_name s = Some (r, s\<lparr> names := ns \<rparr>)"
    using x(1) r1 by (simp add: generate_name_def)
  have "card (dom (sessions s) - A) \<le> card (dom (sessions s))"
    by (rule card_mono [OF fin]) blast
  then have c6: "k \<le> card (dom (sessions s))" using r6 by simp
  have c7: "draws (Suc k) (names s) = Some (x # xs, ns)" using x(1) r7 by simp
  have "generate_name s = Some (r, s\<lparr> names := ns \<rparr>) \<and> names_ok ns \<and> r \<notin> A \<and>
           sessions s r = None \<and> avoids (insert r A) ns \<and>
           k \<le> card (dom (sessions s)) \<and> draws (Suc k) (names s) = Some (x # xs, ns) \<and>
           r = last (x # xs) \<and> set (butlast (x # xs)) \<subseteq> dom (sessions s)"
    by (intro conjI c1 r2 r3 r4 r5 c6 c7 r8 r9)
  then show ?thesis
    by (intro exI [of _ r] exI [of _ ns] exI [of _ k] exI [of _ "x # xs"])
qed

lemma redraw_result:
  assumes "redraw x s = Some y"
  shows "sessions s (fst y) = None \<and> (\<exists>ns. snd y = s\<lparr> names := ns \<rparr>)"
proof (rule redraw.raw_induct [where P = "\<lambda>x s y. sessions s (fst y) = None \<and> (\<exists>ns. snd y = s\<lparr> names := ns \<rparr>)", OF _ assms])
  fix f :: "string \<Rightarrow> sys \<Rightarrow> (string \<times> sys) option" and x s y
  assume IH: "\<And>x s y. f x s = Some y \<Longrightarrow> sessions s (fst y) = None \<and> (\<exists>ns. snd y = s\<lparr> names := ns \<rparr>)"
  assume eq: "(if sessions s x \<noteq> None
               then case names_next (names s) of None \<Rightarrow> None | Some (r, ns) \<Rightarrow> f r (s\<lparr> names := ns \<rparr>)
               else Some (x, s)) = Some y"
  show "sessions s (fst y) = None \<and> (\<exists>ns. snd y = s\<lparr> names := ns \<rparr>)"
  proof (cases "sessions s x = None")
    case True
    then have "y = (x, s)" using eq by simp
    moreover have "s = s\<lparr> names := names s \<rparr>" by simp
    ultimately show ?thesis using True by (metis fst_conv snd_conv)
  next
    case False
    then obtain z ns1 where z: "f z (s\<lparr> names := ns1 \<rparr>) = Some y"
      using eq by (auto split: option.splits)
    from IH [OF z] show ?thesis by auto
  qed
qed

lemma generate_name_result:
  assumes "generate_name s = Some (r, s')"
  shows "sessions s r = None \<and> (\<exists>ns. s' = s\<lparr> names := ns \<rparr>)"
proof -
  obtain x ns1 where "redraw x (s\<lparr> names := ns1 \<rparr>) = Some (r, s')"
    using assms unfolding generate_name_def by (auto split: option.splits)
  from redraw_result [OF this] show ?thesis by auto
qed


lemma sys_ok_init: "sys_ok (sys_init c r clk)"
  by (simp add: sys_ok_def sys_init_def names_ok_init)

lemma sys_ok_sessions:
  "sys_ok s \<Longrightarrow> finite (dom m) \<Longrightarrow> sys_ok (s\<lparr> sessions := m \<rparr>)"
  by (simp add: sys_ok_def)


text \<open>The first two names of a fresh process whose random stream is constantly 0.\<close>

lemma draws_one: "map_option fst (draws 1 (names_init (\<lambda>_. 0))) = Some [''beta-orange'']"
  by code_simp

lemma draws_two: "map_option fst (draws 2 (names_init (\<lambda>_. 0))) = Some [''beta-orange'', ''beta-yellow'']"
  by code_simp

section \<open>The two cases of \<open>activate\<close>\<close>

lemma activate_absent:
  assumes "sessions s name = None"
  shows "activate name s =
     Inr (s\<lparr> ctxs := ctxs s @ [(name, True)], ticks := Suc (Suc (ticks s)),
            sessions := (sessions s)(name \<mapsto>
               \<lparr> sess_context = length (ctxs s), seen = clock s (Suc (ticks s)) \<rparr>),
            current := Some (length (ctxs s)) \<rparr>)"
  using assms
  by (simp add: activate_def new_session_def Context_new_def time_time_def Context_start_def
        Session_activate_def context_activate_def Let_def)

lemma activate_present:
  assumes "sessions s name = Some sess"
  shows "activate name s =
     Inr (s\<lparr> ticks := Suc (ticks s),
            sessions := (sessions s)(name \<mapsto> sess\<lparr> seen := clock s (ticks s) \<rparr>),
            current := Some (sess_context sess) \<rparr>)"
  using assms
  by (simp add: activate_def time_time_def Session_activate_def context_activate_def Let_def)

lemma activate_returns:
  "\<exists>s'. activate name s = Inr s' \<and> names s' = names s \<and>
         dom (sessions s') = insert name (dom (sessions s))"
proof (cases "sessions s name")
  case None
  show ?thesis unfolding activate_absent [OF None] by simp
next
  case (Some sess)
  then have "insert name (dom (sessions s)) = dom (sessions s)" by auto
  then show ?thesis unfolding activate_present [OF Some] by simp
qed

section \<open>The cookie library and the cookie filter\<close>

lemma quote_examples:
  "quote ''alpha-red'' = ''alpha-red''"
  "quote ''a b'' = [CHR 0x22] @ ''a b'' @ [CHR 0x22]"
  "quote ''a;b'' = [CHR 0x22] @ ''a'' @ [CHR 0x5C] @ ''073b'' @ [CHR 0x22]"
  "quote ''a=b'' = [CHR 0x22] @ ''a=b'' @ [CHR 0x22]"
  "quote [] = [CHR 0x22, CHR 0x22]"
  "quote [CHR 0x00, CHR 0xFF] = [CHR 0x22, CHR 0x5C] @ ''000'' @ [CHR 0x5C] @ ''377'' @ [CHR 0x22]"
  by (simp_all add: quote_def is_legal_key_def legal_chars_def translate_def unescaped_chars_def
        octal_digit_def char_of_def bit_Suc_0_iff)

lemma cookie_key_examples:
  "cookie_key_ok ''sid''" "cookie_key_ok ''a:b''" "cookie_key_ok ''expires2''"
  "\<not> cookie_key_ok ''my cookie''" "\<not> cookie_key_ok ''Path''" "\<not> cookie_key_ok ''SameSite''"
  "\<not> cookie_key_ok []" "\<not> cookie_key_ok ''a=b''"
  by (simp_all add: cookie_key_ok_def is_legal_key_def legal_chars_def lower_def reserved_keys_def char_of_def bit_Suc_0_iff)


lemma vocab_legal: "w \<in> vocab \<Longrightarrow> w \<noteq> [] \<and> set w \<subseteq> set legal_chars"
  by (auto simp: vocab_def letters0_def colours0_def legal_chars_def)

lemma set_join: "set (join t) \<subseteq> \<Union> (set ` set t) \<union> {CHR ''-''}"
  by (induction t rule: join.induct) auto

lemma join_nonempty: "t \<noteq> [] \<Longrightarrow> \<forall>w\<in>set t. w \<noteq> [] \<Longrightarrow> join t \<noteq> []"
  by (induction t rule: join.induct) auto

lemma dash_legal: "CHR ''-'' \<in> set legal_chars"
  by (simp add: legal_chars_def)

lemma join_legal:
  assumes "t \<noteq> []" "set t \<subseteq> vocab"
  shows "is_legal_key (join t)"
proof -
  have w: "\<forall>w\<in>set t. w \<noteq> [] \<and> set w \<subseteq> set legal_chars"
    using assms(2) vocab_legal by blast
  have "join t \<noteq> []" using assms(1) w by (intro join_nonempty) auto
  moreover have "set (join t) \<subseteq> set legal_chars"
  proof
    fix c assume "c \<in> set (join t)"
    then have "c \<in> \<Union> (set ` set t) \<union> {CHR ''-''}" using set_join by blast
    then show "c \<in> set legal_chars" using w dash_legal by auto
  qed
  ultimately show ?thesis by (auto simp: is_legal_key_def)
qed

lemma pending_legal:
  assumes "names_ok s" "pending s = t # ts"
  shows "is_legal_key (join t)"
proof -
  have v: "set t \<subseteq> vocab" and l: "length t = length (parts s)"
    using assms by (simp_all add: names_ok_def)
  have "parts s \<noteq> []" using assms by (auto simp: names_ok_def split: if_splits)
  then have "t \<noteq> []" using l by auto
  then show ?thesis using v by (rule join_legal)
qed

lemma names_next_legal:
  assumes "names_ok s" "names_next s = Some (x, s')"
  shows "is_legal_key x"
proof (cases "pending s")
  case (Cons t ts)
  then have "x = join t" using assms(2) names_next_Cons [OF Cons] by simp
  then show ?thesis using pending_legal [OF assms(1) Cons] by simp
next
  case Nil
  have ok: "names_ok (advance s)" and ne: "pending (advance s) \<noteq> []"
    using names_ok_advance [OF assms(1)] by simp_all
  obtain t ts where p: "pending (advance s) = t # ts" using ne by (cases "pending (advance s)") auto
  have "names_next s = names_next (advance s)" using Nil by (rule names_next_Nil)
  then have "x = join t" using assms(2) names_next_Cons [OF p] by simp
  then show ?thesis using pending_legal [OF ok p] by simp
qed

lemma draws_legal:
  "names_ok s \<Longrightarrow> draws n s = Some (xs, s') \<Longrightarrow> \<forall>x\<in>set xs. is_legal_key x"
proof (induction n arbitrary: s xs)
  case 0
  then show ?case by simp
next
  case (Suc n)
  obtain x s1 where x: "names_next s = Some (x, s1)" "names_ok s1"
    using names_next_step [OF Suc.prems(1) avoids_empty] by blast
  obtain ys where ys: "draws n s1 = Some (ys, s')" "xs = x # ys"
    using Suc.prems(2) x(1) by (auto split: option.splits)
  have "is_legal_key x" using names_next_legal [OF Suc.prems(1) x(1)] .
  moreover have "\<forall>y\<in>set ys. is_legal_key y" using Suc.IH [OF x(2) ys(1)] .
  ultimately show ?case unfolding ys(2) by simp
qed

lemma handle_absent:
  assumes ok: "sys_ok s" and ab: "cookies req (cookie s) = None"
  shows "\<exists>v ns s2. generate_name s = Some (v, s\<lparr> names := ns \<rparr>) \<and> v \<notin> dom (sessions s) \<and>
           quote v = v \<and> activate v (s\<lparr> names := ns \<rparr>) = Inr s2 \<and>
           handle req s =
             (if cookie_key_ok (cookie s)
              then Some (Inr ([SendHeader ''Set-Cookie'' ('' '' @ cookie s @ ''='' @ v @ ''; Path=/'')],
                              req\<lparr> cookies := (cookies req)(cookie s \<mapsto> \<lparr> mvalue = v, mpath = ''/'' \<rparr>) \<rparr>,
                              s2))
              else Some (Inl CookieError))"
proof -
  obtain r ns k xs where g: "generate_name s = Some (r, s\<lparr> names := ns \<rparr>) \<and> names_ok ns \<and> r \<notin> {} \<and>
           sessions s r = None \<and> avoids (insert r {}) ns \<and>
           k \<le> card (dom (sessions s)) \<and> draws (Suc k) (names s) = Some (xs, ns) \<and> r = last xs \<and>
           set (butlast xs) \<subseteq> dom (sessions s)"
    using generate_name_total [OF ok avoids_empty] by (elim exE)
  have g1: "generate_name s = Some (r, s\<lparr> names := ns \<rparr>)" using g by (elim conjE)
  have g4: "sessions s r = None" using g by (elim conjE)
  have g7: "draws (Suc k) (names s) = Some (xs, ns)" using g by (elim conjE)
  have g8: "r = last xs" using g by (elim conjE)
  have nok: "names_ok (names s)" using ok by (simp add: sys_ok_def)
  obtain d1 d2 where "draws (Suc k) (names s) = Some (d1, d2)" "length d1 = Suc k"
    using draws_step [OF nok avoids_empty, of "Suc k"] by blast
  then have "length xs = Suc k" using g7 by simp
  then have "xs \<noteq> []" by auto
  then have "r \<in> set xs" unfolding g8 by simp
  then have lg: "is_legal_key r" using draws_legal [OF nok g7] by blast
  have q: "quote r = r" using lg by (simp add: quote_def)
  have nd: "r \<notin> dom (sessions s)" using g4 by (simp add: domIff)
  obtain s2 where a: "activate r (s\<lparr> names := ns \<rparr>) = Inr s2"
    using activate_returns [of r "s\<lparr> names := ns \<rparr>"] by blast
  have h: "handle req s =
             (if cookie_key_ok (cookie s)
              then Some (Inr ([SendHeader ''Set-Cookie'' ('' '' @ cookie s @ ''='' @ r @ ''; Path=/'')],
                              req\<lparr> cookies := (cookies req)(cookie s \<mapsto> \<lparr> mvalue = r, mpath = ''/'' \<rparr>) \<rparr>,
                              s2))
              else Some (Inl CookieError))"
    using ab g1 a q by (simp add: handle_def morsel_output_def)
  have "generate_name s = Some (r, s\<lparr> names := ns \<rparr>) \<and> r \<notin> dom (sessions s) \<and>
           quote r = r \<and> activate r (s\<lparr> names := ns \<rparr>) = Inr s2 \<and>
           handle req s =
             (if cookie_key_ok (cookie s)
              then Some (Inr ([SendHeader ''Set-Cookie'' ('' '' @ cookie s @ ''='' @ r @ ''; Path=/'')],
                              req\<lparr> cookies := (cookies req)(cookie s \<mapsto> \<lparr> mvalue = r, mpath = ''/'' \<rparr>) \<rparr>,
                              s2))
              else Some (Inl CookieError))"
    by (intro conjI g1 nd q a h)
  then show ?thesis by (intro exI [of _ r] exI [of _ ns] exI [of _ s2])
qed

lemma handle_present:
  assumes "cookies req (cookie s) = Some m"
  shows "\<exists>s2. activate (mvalue m) s = Inr s2 \<and> handle req s = Some (Inr ([], req, s2))"
proof -
  obtain s2 where a: "activate (mvalue m) s = Inr s2"
    using activate_returns [of "mvalue m" s] by blast
  have "handle req s = Some (Inr ([], req, s2))" using assms a by (simp add: handle_def)
  then show ?thesis using a by blast
qed

section \<open>Sequences of calls on one manager\<close>

lemma sys_ok_names:
  "sys_ok s \<Longrightarrow> names_ok ns \<Longrightarrow> sys_ok (s\<lparr> names := ns \<rparr>)"
  by (simp add: sys_ok_def)

lemma activate_sys_ok:
  assumes "sys_ok s"
  shows "\<exists>s'. activate name s = Inr s' \<and> names s' = names s \<and> sys_ok s'"
proof -
  obtain s' where a: "activate name s = Inr s'" "names s' = names s"
    "dom (sessions s') = insert name (dom (sessions s))"
    using activate_returns [of name s] by blast
  have "sys_ok s'" using assms a(2,3) by (simp add: sys_ok_def)
  then show ?thesis using a(1,2) by blast
qed

lemma run_distinct:
  "sys_ok s \<Longrightarrow> avoids A (names s) \<Longrightarrow>
   \<exists>issued s'. run cs s = Some (issued, s') \<and> distinct issued \<and> set issued \<inter> A = {} \<and>
      length issued = length (filter (\<lambda>c. c = Generate) cs) \<and> sys_ok s'"
proof (induction cs arbitrary: s A)
  case Nil
  then show ?case by simp
next
  case (Cons c cs)
  show ?case
  proof (cases c)
    case Generate
    obtain r ns k xs where g: "generate_name s = Some (r, s\<lparr> names := ns \<rparr>) \<and> names_ok ns \<and> r \<notin> A \<and>
           sessions s r = None \<and> avoids (insert r A) ns \<and>
           k \<le> card (dom (sessions s)) \<and> draws (Suc k) (names s) = Some (xs, ns) \<and> r = last xs \<and>
           set (butlast xs) \<subseteq> dom (sessions s)"
      using generate_name_total [OF Cons.prems] by (elim exE)
    have g1: "generate_name s = Some (r, s\<lparr> names := ns \<rparr>)" using g by (elim conjE)
    have g2: "names_ok ns" using g by (elim conjE)
    have g3: "r \<notin> A" using g by (elim conjE)
    have g5: "avoids (insert r A) ns" using g by (elim conjE)
    let ?s1 = "s\<lparr> names := ns \<rparr>"
    have ok1: "sys_ok ?s1" using Cons.prems(1) g2 by (rule sys_ok_names)
    have av1: "avoids (insert r A) (names ?s1)" using g5 by simp
    obtain issued s' where i: "run cs ?s1 = Some (issued, s')" "distinct issued"
      "set issued \<inter> insert r A = {}"
      "length issued = length (filter (\<lambda>c. c = Generate) cs)" "sys_ok s'"
      using Cons.IH [OF ok1 av1] by blast
    have r1: "run (c # cs) s = Some (r # issued, s')"
      unfolding Generate using g1 i(1) by simp
    have r2: "distinct (r # issued)" using i(2,3) by auto
    have r3: "set (r # issued) \<inter> A = {}" using i(3) g3 by auto
    have r4: "length (r # issued) = length (filter (\<lambda>c. c = Generate) (c # cs))"
      unfolding Generate using i(4) by simp
    show ?thesis
      by (intro exI [of _ "r # issued"] exI [of _ s'] conjI r1 r2 r3 r4 i(5))
  next
    case (Activate name)
    obtain s1 where a: "activate name s = Inr s1" "names s1 = names s" "sys_ok s1"
      using activate_sys_ok [OF Cons.prems(1), of name] by blast
    have av1: "avoids A (names s1)" using Cons.prems(2) a(2) by simp
    obtain issued s' where i: "run cs s1 = Some (issued, s')" "distinct issued"
      "set issued \<inter> A = {}"
      "length issued = length (filter (\<lambda>c. c = Generate) cs)" "sys_ok s'"
      using Cons.IH [OF a(3) av1] by blast
    have r1: "run (c # cs) s = Some (issued, s')"
      unfolding Activate using a(1) i(1) by simp
    have r4: "length issued = length (filter (\<lambda>c. c = Generate) (c # cs))"
      unfolding Activate using i(4) by simp
    show ?thesis
      by (intro exI [of _ issued] exI [of _ s'] conjI r1 i(2) i(3) r4 i(5))
  qed
qed
section \<open>\<open>int\<close> on header texts accepts exactly the integer literals\<close>

lemma underscore_no_digit: "\<not> is_digit (CHR ''_'')"
  by (simp add: is_digit_def)

lemma digit_run_hd: "digit_run xs \<Longrightarrow> xs \<noteq> [] \<and> is_digit (hd xs)"
  by (cases xs rule: digit_run.cases) auto

lemma digit_run_Cons: "digit_run (c # cs) \<Longrightarrow> is_digit c"
  using digit_run_hd [of "c # cs"] by simp

lemma parse_digits_spec:
  "parse_digits acc xs =
     (case xs of
        [] \<Rightarrow> Some acc
      | c # cs \<Rightarrow>
          if is_digit c
          then (if digit_run xs
                then Some (foldl (\<lambda>a c. a * 10 + digit_val c) acc (filter is_digit xs)) else None)
          else if c = CHR ''_'' \<and> digit_run cs
          then Some (foldl (\<lambda>a c. a * 10 + digit_val c) acc (filter is_digit xs)) else None)"
proof (induction acc xs rule: parse_digits.induct)
  case (1 acc)
  show ?case by simp
next
  case (2 acc c)
  show ?case by simp
next
  case (3 acc c d cs)
  show ?case
  proof (cases "is_digit c")
    case True
    note c = True
    show ?thesis
    proof (cases "is_digit d")
      case True
      then have "d \<noteq> CHR ''_''" using underscore_no_digit by auto
      then show ?thesis using 3(1) [OF c] c True by simp
    next
      case False
      then have nr: "\<not> digit_run (d # cs)" using digit_run_Cons by blast
      show ?thesis
      proof (cases "d = CHR ''_''")
        case True
        then show ?thesis using 3(1) [OF c] c False by simp
      next
        case False
        then show ?thesis using 3(1) [OF c] c nr \<open>\<not> is_digit d\<close> by simp
      qed
    qed
  next
    case False
    note c = False
    show ?thesis
    proof (cases "c = CHR ''_'' \<and> is_digit d")
      case True
      then show ?thesis using 3(2) [OF c] c by simp
    next
      case False
      then have "c = CHR ''_'' \<Longrightarrow> \<not> digit_run (d # cs)" using digit_run_Cons by blast
      then show ?thesis using c False by auto
    qed
  qed
qed


lemma filter_dropWhile_disj:
  "(\<And>c. P c \<Longrightarrow> \<not> Q c) \<Longrightarrow> filter P (dropWhile Q xs) = filter P xs"
  by (induction xs) auto

lemma digit_no_space: "is_digit c \<Longrightarrow> \<not> is_space c"
  by (auto simp: is_digit_def is_space_def)

lemma filter_digit_strip: "filter is_digit (strip x) = filter is_digit x"
proof -
  have "filter is_digit (strip x) = rev (filter is_digit (dropWhile is_space (rev (dropWhile is_space x))))"
    by (simp add: strip_def rev_filter)
  also have "\<dots> = rev (filter is_digit (rev (dropWhile is_space x)))"
    by (simp add: filter_dropWhile_disj digit_no_space)
  also have "\<dots> = filter is_digit (dropWhile is_space x)"
    by (simp add: rev_filter)
  also have "\<dots> = filter is_digit x"
    by (simp add: filter_dropWhile_disj digit_no_space)
  finally show ?thesis .
qed

lemma filter_digit_unsigned: "filter is_digit (unsigned x) = filter is_digit x"
  by (auto simp: unsigned_def is_digit_def split: list.split)

lemma parse_nat_spec:
  "parse_nat p x =
     (if digit_run x \<and> \<not> too_many_digits p x then Some (digits_value x) else None)"
proof (cases x)
  case Nil
  then show ?thesis by (simp add: parse_nat_def)
next
  case (Cons c cs)
  show ?thesis
  proof (cases "is_digit c")
    case True
    then show ?thesis
      unfolding parse_nat_def Cons by (simp add: parse_digits_spec digits_value_def)
  next
    case False
    then have "\<not> digit_run (c # cs)" using digit_run_Cons by blast
    then show ?thesis unfolding parse_nat_def Cons using False by simp
  qed
qed

lemma too_many_digits_cong:
  "filter is_digit x = filter is_digit y \<Longrightarrow> too_many_digits p x = too_many_digits p y"
  by (simp add: too_many_digits_def)

lemma digits_value_cong:
  "filter is_digit x = filter is_digit y \<Longrightarrow> digits_value x = digits_value y"
  by (simp add: digits_value_def)

lemma py_int_spec:
  "py_int p x =
     (if valid_int_literal x \<and> \<not> too_many_digits p x then Some (literal_value x) else None)"
proof -
  have f: "filter is_digit (unsigned (strip x)) = filter is_digit x"
    by (simp add: filter_digit_unsigned filter_digit_strip)
  have t: "too_many_digits p (unsigned (strip x)) = too_many_digits p x"
    by (rule too_many_digits_cong [OF f])
  have d: "digits_value (unsigned (strip x)) = digits_value x"
    by (rule digits_value_cong [OF f])
  show ?thesis
  proof (cases "strip x")
    case Nil
    then show ?thesis by (simp add: py_int_def valid_int_literal_def unsigned_def)
  next
    case (Cons c cs)
    consider "c = CHR ''-''" | "c = CHR ''+''" | "c \<noteq> CHR ''-''" "c \<noteq> CHR ''+''" by blast
    then show ?thesis
    proof cases
      case 1
      then have u: "unsigned (strip x) = cs" by (simp add: unsigned_def Cons)
      show ?thesis
        using t d unfolding u
        by (simp add: py_int_def Cons 1 parse_nat_spec valid_int_literal_def unsigned_def literal_value_def)
    next
      case 2
      then have u: "unsigned (strip x) = cs" by (simp add: unsigned_def Cons)
      show ?thesis
        using t d unfolding u
        by (simp add: py_int_def Cons 2 parse_nat_spec valid_int_literal_def unsigned_def literal_value_def)
    next
      case 3
      then have u: "unsigned (strip x) = c # cs" by (simp add: unsigned_def Cons)
      show ?thesis
        using t d 3 unfolding u
        by (simp add: py_int_def Cons parse_nat_spec valid_int_literal_def unsigned_def literal_value_def)
    qed
  qed
qed

lemma py_int_invalid: "\<not> valid_int_literal x \<Longrightarrow> py_int p x = None"
  by (simp add: py_int_spec)


section \<open>Values of \<open>int\<close> and \<open>read\<close> on concrete arguments\<close>

lemma cpython64_fields:
  "maxsize cpython64 = 9223372036854775807"
  "bytes_max cpython64 = 9223372036854775774"
  "alloc_max cpython64 = 4294967296"
  "max_str_digits cpython64 = 4300"
  by (simp_all add: cpython64_def)

lemma not_literal_abc: "\<not> valid_int_literal ''abc''"
  by (simp add: valid_int_literal_def strip_def is_space_def unsigned_def is_digit_def)

lemma py_int_examples:
  "py_int p ''2'' = Some 2"
  "py_int p ''13'' = Some 13"
  "py_int p [CHR 0xA0, CHR ''2''] = Some 2"
  "py_int p [CHR ''2'', CHR 0x85] = Some 2"
  "py_int p '' +1_0 '' = Some 10"
  "py_int p ''-1'' = Some (- 1)"
  "py_int p ''-2'' = Some (- 2)"
  "py_int p ''5'' = Some 5"
  "py_int p ''9223372036854775808'' = Some 9223372036854775808"
  "py_int p ''00'' = Some 0"
  "py_int p ''1__0'' = None"
  "py_int p ''_1'' = None"
  "py_int p ''1_'' = None"
  "py_int p ''+ 1'' = None"
  "py_int p ''+-1'' = None"
  "py_int p [] = None"
  "py_int p ''0x1'' = None"
  "py_int p ''1 2'' = None"
  "py_int p [CHR 0x1C, CHR ''2''] = None"
  "py_int p ''abc'' = None"
  by (simp_all add: py_int_def strip_def is_space_def parse_nat_def is_digit_def
        too_many_digits_def digit_val_def)

lemma py_int_limit:
  "py_int cpython64 (replicate 4301 (CHR ''0'')) = None"
  by (simp add: py_int_spec too_many_digits_def cpython64_fields is_digit_def)

lemma rfile_read_examples:
  "rfile_read cpython64 2 ''{}'' e = Some (Inr ''{}'')"
  "rfile_read cpython64 2 ''[['' e = Some (Inr ''[['')"
  "rfile_read cpython64 (- 1) ''{}'' Eof = Some (Inr ''{}'')"
  "rfile_read cpython64 5 ''{}'' Eof = Some (Inr ''{}'')"
  "rfile_read cpython64 5 ''{}'' Stalls = None"
  "rfile_read cpython64 5 ''{}'' (Fails OSError) = Some (Inl OSError)"
  "rfile_read cpython64 (- 2) ''{}'' e = Some (Inl ValueError)"
  "rfile_read cpython64 9223372036854775808 ''{}'' e = Some (Inl OverflowError)"
  "rfile_read cpython64 9223372036854775807 ''{}'' e = Some (Inl OverflowError)"
  "rfile_read cpython64 4611686018427387904 ''{}'' e = Some (Inl MemoryError)"
  by (simp_all add: rfile_read_def cpython64_fields)
section \<open>The claims\<close>

text \<open>
  Claim C7. For every \<open>N \<le> 144\<close>, the first \<open>N\<close> values drawn from \<open>names\<close> in a fresh
  process are returned, are pairwise distinct, and are letter-colour pairs joined by
  \<open>-\<close>; the first 144 are all 24 \<times> 6 such pairs. This holds for every outcome of the
  shuffles.
\<close>

theorem names_first_144_distinct:
  assumes "N \<le> 144"
  shows "\<exists>xs s'. draws N (names_init r) = Some (xs, s') \<and> length xs = N \<and> distinct xs \<and>
           set xs \<subseteq> {l @ CHR ''-'' # c | l c. l \<in> set letters0 \<and> c \<in> set colours0} \<and>
           (N = 144 \<longrightarrow>
              set xs = {l @ CHR ''-'' # c | l c. l \<in> set letters0 \<and> c \<in> set colours0})"
proof -
  let ?S = "{l @ CHR ''-'' # c | l c. l \<in> set letters0 \<and> c \<in> set colours0}"
  obtain xs s' where d: "draws N (names_init r) = Some (xs, s')" "length xs = N" "distinct xs"
    using draws_step [where s = "names_init r" and A = "{}" and n = N] names_ok_init avoids_empty
    by blast
  have img: "join ` set (stage0 r) = ?S"
  proof (intro set_eqI iffI)
    fix x assume "x \<in> join ` set (stage0 r)"
    then obtain l c where "x = join [l, c]" "l \<in> set letters0" "c \<in> set colours0"
      unfolding set_stage0 by blast
    then show "x \<in> ?S" by auto
  next
    fix x assume "x \<in> ?S"
    then obtain l c where x: "x = l @ CHR ''-'' # c" "l \<in> set letters0" "c \<in> set colours0"
      by blast
    then have "[l, c] \<in> set (stage0 r)" unfolding set_stage0 by blast
    moreover have "x = join [l, c]" using x(1) by simp
    ultimately show "x \<in> join ` set (stage0 r)" by blast
  qed
  have sub: "set xs \<subseteq> ?S \<and> (N = 144 \<longrightarrow> set xs = ?S)"
  proof (cases N)
    case 0
    then show ?thesis using d(2) by simp
  next
    case (Suc n)
    have le: "N \<le> length (pending (advance (names_init r)))"
      using assms by (simp add: pending_advance_init length_stage0)
    have "draws N (names_init r) = draws N (advance (names_init r))"
      unfolding Suc by (rule draws_Suc_advance) (simp add: names_init_def)
    then have xs: "xs = map join (take N (stage0 r))"
      using d(1) draws_pending [OF le] by (simp add: pending_advance_init)
    have "set xs \<subseteq> join ` set (stage0 r)"
      unfolding xs using set_take_subset [of N "stage0 r"] by auto
    moreover have "N = 144 \<Longrightarrow> set xs = join ` set (stage0 r)"
      unfolding xs by (simp add: length_stage0)
    ultimately show ?thesis unfolding img by blast
  qed
  show ?thesis using d sub by blast
qed

text \<open>The theorem at \<open>N = 3\<close>, for the random stream that is constantly 0.\<close>

theorem names_first_144_distinct_witness:
  "(3::nat) \<le> 144 \<and>
   (\<exists>xs s'. draws 3 (names_init (\<lambda>_. 0)) = Some (xs, s') \<and> length xs = 3 \<and> distinct xs \<and>
      set xs \<subseteq> {l @ CHR ''-'' # c | l c. l \<in> set letters0 \<and> c \<in> set colours0} \<and>
      ((3::nat) = 144 \<longrightarrow>
         set xs = {l @ CHR ''-'' # c | l c. l \<in> set letters0 \<and> c \<in> set colours0}))"
  using names_first_144_distinct [of 3 "\<lambda>_. 0"] by simp


text \<open>
  Claim C4. In every state whose name iterator is in a reachable state and whose sessions
  dictionary is finite, \<open>generate_name\<close> returns, the string it returns is not a key of
  the sessions dictionary at call time, and the call changes nothing but the position of
  the name iterator: the sessions dictionary afterwards is the one before.
\<close>

theorem generate_name_fresh:
  assumes "sys_ok s"
  shows "\<exists>r ns. generate_name s = Some (r, s\<lparr> names := ns \<rparr>) \<and> r \<notin> dom (sessions s) \<and>
           sessions (s\<lparr> names := ns \<rparr>) = sessions s"
proof -
  obtain r ns k xs where g: "generate_name s = Some (r, s\<lparr> names := ns \<rparr>) \<and> names_ok ns \<and> r \<notin> {} \<and>
           sessions s r = None \<and> avoids (insert r {}) ns \<and>
           k \<le> card (dom (sessions s)) \<and> draws (Suc k) (names s) = Some (xs, ns) \<and> r = last xs \<and>
           set (butlast xs) \<subseteq> dom (sessions s)"
    using generate_name_total [OF assms avoids_empty] by (elim exE)
  have g1: "generate_name s = Some (r, s\<lparr> names := ns \<rparr>)" using g by (elim conjE)
  have "sessions s r = None" using g by (elim conjE)
  then have g2: "r \<notin> dom (sessions s)" by (simp add: domIff)
  have g3: "sessions (s\<lparr> names := ns \<rparr>) = sessions s" by simp
  have "generate_name s = Some (r, s\<lparr> names := ns \<rparr>) \<and> r \<notin> dom (sessions s) \<and>
           sessions (s\<lparr> names := ns \<rparr>) = sessions s"
    by (intro conjI g1 g2 g3)
  then show ?thesis by (intro exI [of _ r] exI [of _ ns])
qed

text \<open>
  The theorem in a fresh process whose dictionary already holds the key \<open>alpha-red\<close>.
\<close>

theorem generate_name_fresh_witness:
  "sys_ok ((sys_init ''sid'' (\<lambda>_. 0) real)\<lparr> sessions := [''alpha-red'' \<mapsto> \<lparr> sess_context = 0, seen = 0 \<rparr>] \<rparr>) \<and>
   (\<exists>r ns. generate_name ((sys_init ''sid'' (\<lambda>_. 0) real)\<lparr> sessions := [''alpha-red'' \<mapsto> \<lparr> sess_context = 0, seen = 0 \<rparr>] \<rparr>)
       = Some (r, (sys_init ''sid'' (\<lambda>_. 0) real)\<lparr> sessions := [''alpha-red'' \<mapsto> \<lparr> sess_context = 0, seen = 0 \<rparr>], names := ns \<rparr>) \<and>
      r \<noteq> ''alpha-red'')"
proof -
  let ?s = "(sys_init ''sid'' (\<lambda>_. 0) real)\<lparr> sessions := [''alpha-red'' \<mapsto> \<lparr> sess_context = 0, seen = 0 \<rparr>] \<rparr>"
  have ok: "sys_ok ?s" by (rule sys_ok_sessions [OF sys_ok_init]) simp
  from generate_name_fresh [OF ok] obtain r ns where
    g: "generate_name ?s = Some (r, ?s\<lparr> names := ns \<rparr>)" "r \<notin> dom (sessions ?s)"
    by blast
  have "r \<noteq> ''alpha-red''" using g(2) by auto
  then show ?thesis using ok g(1) by blast
qed


text \<open>
  Claim C8. For every finite sessions dictionary (and every reachable state of the name
  iterator), \<open>generate_name\<close> terminates: it returns the last of \<open>k + 1\<close> successive draws
  from \<open>names\<close>, where the number \<open>k\<close> of redraws is at most the number of keys of the
  dictionary; every draw before the last is a key of the dictionary, and the name returned
  is not. Moreover any number \<open>n\<close> of successive draws from \<open>names\<close> returns \<open>n\<close> values,
  so the sequence is never exhausted.
\<close>

theorem generate_name_terminates:
  assumes "names_ok (names s)" "finite (dom (sessions s))"
  shows "(\<exists>k xs ns. k \<le> card (dom (sessions s)) \<and> draws (Suc k) (names s) = Some (xs, ns) \<and>
            generate_name s = Some (last xs, s\<lparr> names := ns \<rparr>) \<and>
            set (butlast xs) \<subseteq> dom (sessions s) \<and> last xs \<notin> dom (sessions s)) \<and>
         (\<exists>xs ns. draws n (names s) = Some (xs, ns) \<and> length xs = n)"
proof
  have ok: "sys_ok s" using assms by (simp add: sys_ok_def)
  obtain r ns k xs where g: "generate_name s = Some (r, s\<lparr> names := ns \<rparr>) \<and> names_ok ns \<and> r \<notin> {} \<and>
           sessions s r = None \<and> avoids (insert r {}) ns \<and>
           k \<le> card (dom (sessions s)) \<and> draws (Suc k) (names s) = Some (xs, ns) \<and> r = last xs \<and>
           set (butlast xs) \<subseteq> dom (sessions s)"
    using generate_name_total [OF ok avoids_empty] by (elim exE)
  have g1: "generate_name s = Some (r, s\<lparr> names := ns \<rparr>)" using g by (elim conjE)
  have g4: "sessions s r = None" using g by (elim conjE)
  have g6: "k \<le> card (dom (sessions s))" using g by (elim conjE)
  have g7: "draws (Suc k) (names s) = Some (xs, ns)" using g by (elim conjE)
  have g8: "r = last xs" using g by (elim conjE)
  have g9: "set (butlast xs) \<subseteq> dom (sessions s)" using g by (elim conjE)
  have g10: "r \<notin> dom (sessions s)" using g4 by (simp add: domIff)
  have "k \<le> card (dom (sessions s)) \<and> draws (Suc k) (names s) = Some (xs, ns) \<and>
            generate_name s = Some (last xs, s\<lparr> names := ns \<rparr>) \<and>
            set (butlast xs) \<subseteq> dom (sessions s) \<and> last xs \<notin> dom (sessions s)"
    using g1 g6 g7 g9 g10 unfolding g8 by (intro conjI)
  then show "\<exists>k xs ns. k \<le> card (dom (sessions s)) \<and> draws (Suc k) (names s) = Some (xs, ns) \<and>
            generate_name s = Some (last xs, s\<lparr> names := ns \<rparr>) \<and>
            set (butlast xs) \<subseteq> dom (sessions s) \<and> last xs \<notin> dom (sessions s)"
    by (intro exI [of _ k] exI [of _ xs] exI [of _ ns])
  show "\<exists>xs ns. draws n (names s) = Some (xs, ns) \<and> length xs = n"
    using draws_step [OF assms(1) avoids_empty, of n] by blast
qed

text \<open>
  The theorem in a process whose dictionary holds the first name drawn, \<open>beta-orange\<close>:
  the loop redraws once and returns \<open>beta-yellow\<close>; and 200 draws (past the end of stage
  0) return 200 names.
\<close>

theorem generate_name_terminates_witness:
  "names_ok (names ((sys_init ''sid'' (\<lambda>_. 0) real)
      \<lparr> sessions := [''beta-orange'' \<mapsto> \<lparr> sess_context = 0, seen = 0 \<rparr>] \<rparr>)) \<and>
   finite (dom (sessions ((sys_init ''sid'' (\<lambda>_. 0) real)
      \<lparr> sessions := [''beta-orange'' \<mapsto> \<lparr> sess_context = 0, seen = 0 \<rparr>] \<rparr>))) \<and>
   ''beta-orange'' \<in> dom (sessions ((sys_init ''sid'' (\<lambda>_. 0) real)
      \<lparr> sessions := [''beta-orange'' \<mapsto> \<lparr> sess_context = 0, seen = 0 \<rparr>] \<rparr>)) \<and>
   (\<exists>ns. draws 2 (names ((sys_init ''sid'' (\<lambda>_. 0) real)
             \<lparr> sessions := [''beta-orange'' \<mapsto> \<lparr> sess_context = 0, seen = 0 \<rparr>] \<rparr>))
           = Some ([''beta-orange'', ''beta-yellow''], ns) \<and>
         generate_name ((sys_init ''sid'' (\<lambda>_. 0) real)
             \<lparr> sessions := [''beta-orange'' \<mapsto> \<lparr> sess_context = 0, seen = 0 \<rparr>] \<rparr>)
           = Some (''beta-yellow'', (sys_init ''sid'' (\<lambda>_. 0) real)
               \<lparr> sessions := [''beta-orange'' \<mapsto> \<lparr> sess_context = 0, seen = 0 \<rparr>],
                 names := ns \<rparr>)) \<and>
   (\<exists>xs ns. draws 200 (names ((sys_init ''sid'' (\<lambda>_. 0) real)
                \<lparr> sessions := [''beta-orange'' \<mapsto> \<lparr> sess_context = 0, seen = 0 \<rparr>] \<rparr>))
              = Some (xs, ns) \<and> length xs = 200)"
proof -
  let ?s = "(sys_init ''sid'' (\<lambda>_. 0) real)
      \<lparr> sessions := [''beta-orange'' \<mapsto> \<lparr> sess_context = 0, seen = 0 \<rparr>] \<rparr>"
  have nm: "names ?s = names_init (\<lambda>_. 0)" by (simp add: sys_init_def)
  have dm: "dom (sessions ?s) = {''beta-orange''}" by simp
  have a: "names_ok (names ?s)" unfolding nm by (rule names_ok_init)
  have b: "finite (dom (sessions ?s))" unfolding dm by simp
  have c: "''beta-orange'' \<in> dom (sessions ?s)" unfolding dm by simp
  note t = generate_name_terminates [OF a b, of 200]
  obtain k xs ns where kk: "k \<le> card (dom (sessions ?s)) \<and>
      draws (Suc k) (names ?s) = Some (xs, ns) \<and>
      generate_name ?s = Some (last xs, ?s\<lparr> names := ns \<rparr>) \<and>
      set (butlast xs) \<subseteq> dom (sessions ?s) \<and> last xs \<notin> dom (sessions ?s)"
    using conjunct1 [OF t] by (elim exE)
  have k: "k \<le> card (dom (sessions ?s))" using kk by (elim conjE)
  have d: "draws (Suc k) (names_init (\<lambda>_. 0)) = Some (xs, ns)"
    using kk unfolding nm by (elim conjE)
  have g: "generate_name ?s = Some (last xs, ?s\<lparr> names := ns \<rparr>)" using kk by (elim conjE)
  have l: "last xs \<notin> dom (sessions ?s)" using kk by (elim conjE)
  have l': "last xs \<noteq> ''beta-orange''" using l unfolding dm by simp
  have "card (dom (sessions ?s)) = 1" unfolding dm by simp
  then have k1: "k = 0 \<or> k = Suc 0" using k by linarith
  have "k \<noteq> 0"
  proof
    assume "k = 0"
    then have "draws 1 (names_init (\<lambda>_. 0)) = Some (xs, ns)" using d by (simp only: One_nat_def)
    then have "map_option fst (draws 1 (names_init (\<lambda>_. 0))) = Some xs" by (simp only: option.map fst_conv)
    then have "xs = [''beta-orange'']" unfolding draws_one by simp
    then show False using l' by simp
  qed
  then have k2: "k = Suc 0" using k1 by simp
  have "draws 2 (names_init (\<lambda>_. 0)) = Some (xs, ns)"
    using d unfolding k2 by (simp only: numeral_2_eq_2)
  then have d2: "draws 2 (names ?s) = Some (xs, ns)" unfolding nm .
  have "map_option fst (draws 2 (names_init (\<lambda>_. 0))) = Some xs"
    using d2 unfolding nm by (simp only: option.map fst_conv)
  then have xs: "[''beta-orange'', ''beta-yellow''] = xs" unfolding draws_two by (simp only: option.inject)
  have lx: "last xs = ''beta-yellow''" unfolding xs [symmetric] by simp
  have "draws 2 (names ?s) = Some ([''beta-orange'', ''beta-yellow''], ns) \<and>
        generate_name ?s = Some (''beta-yellow'', ?s\<lparr> names := ns \<rparr>)"
  proof
    show "draws 2 (names ?s) = Some ([''beta-orange'', ''beta-yellow''], ns)"
      using d2 unfolding xs [symmetric] .
    show "generate_name ?s = Some (''beta-yellow'', ?s\<lparr> names := ns \<rparr>)"
      using g unfolding lx .
  qed
  then have e: "\<exists>ns. draws 2 (names ?s) = Some ([''beta-orange'', ''beta-yellow''], ns) \<and>
        generate_name ?s = Some (''beta-yellow'', ?s\<lparr> names := ns \<rparr>)"
    by (intro exI [of _ ns])
  note t2 = conjunct2 [OF t]
  show ?thesis
    apply (rule conjI) apply (rule a)
    apply (rule conjI) apply (rule b)
    apply (rule conjI) apply (rule c)
    apply (rule conjI) apply (rule e)
    apply (rule t2)
    done
qed

text \<open>
  Claim C10. When the request has a \<open>content-length\<close> header whose value is not an
  integer literal, \<open>handle_POST\<close> sends nothing (no 411, no 400, no other response), reads
  nothing, and is left by the \<open>ValueError\<close> of the conversion.
\<close>

theorem handle_POST_bad_length:
  assumes "headers req ''content-length'' = Some v" "\<not> valid_int_literal v"
  shows "handle_POST p name loads req s =
           Some \<lparr> effects = [], consumed = [], raised = Some ValueError \<rparr>"
  using assms by (simp add: handle_POST_def py_int_invalid)

text \<open>The theorem for the header \<open>content-length: abc\<close>.\<close>

theorem handle_POST_bad_length_witness:
  "headers \<lparr> cookies = Map.empty, headers = [''content-length'' \<mapsto> ''abc''], rfile = ''{}'',
             rfile_end = Eof \<rparr> ''content-length'' = Some ''abc'' \<and>
   \<not> valid_int_literal ''abc'' \<and>
   handle_POST cpython64 ''tick'' (\<lambda>d. Inr (JObject []))
       \<lparr> cookies = Map.empty, headers = [''content-length'' \<mapsto> ''abc''], rfile = ''{}'',
         rfile_end = Eof \<rparr>
       (sys_init ''sid'' (\<lambda>_. 0) real)
     = Some \<lparr> effects = [], consumed = [], raised = Some ValueError \<rparr>"
proof -
  let ?req = "\<lparr> cookies = Map.empty, headers = [''content-length'' \<mapsto> ''abc''], rfile = ''{}'',
                rfile_end = Eof \<rparr>"
  have h: "headers ?req ''content-length'' = Some ''abc''" by simp
  show ?thesis by (intro conjI h not_literal_abc handle_POST_bad_length [OF h not_literal_abc])
qed

text \<open>
  Claim C3, as stated for every POST request, fails. With \<open>content-length: abc\<close> the
  handler sends no status and is left by \<open>ValueError\<close>; with \<open>content-length: -2\<close> the
  read raises \<open>ValueError\<close>, and with \<open>content-length: 9223372036854775808\<close> it raises
  \<open>OverflowError\<close>, again with nothing sent; when the decoding raises \<open>RecursionError\<close>
  the handler is left by it after the read; with \<open>content-length: 5\<close> and a body of two
  bytes it reads two bytes and answers 202 when the peer ends the stream, and it never
  answers when the peer keeps the connection open.
\<close>

theorem handle_POST_no_outcome:
  "handle_POST cpython64 ''tick'' (\<lambda>d. Inr (JObject []))
       \<lparr> cookies = Map.empty, headers = [''content-length'' \<mapsto> ''abc''], rfile = ''{}'',
         rfile_end = Eof \<rparr>
       ((sys_init ''sid'' (\<lambda>_. 0) real)\<lparr> current := Some 0 \<rparr>)
     = Some \<lparr> effects = [], consumed = [], raised = Some ValueError \<rparr> \<and>
   handle_POST cpython64 ''tick'' (\<lambda>d. Inr (JObject []))
       \<lparr> cookies = Map.empty, headers = [''content-length'' \<mapsto> ''-2''], rfile = ''{}'',
         rfile_end = Eof \<rparr>
       ((sys_init ''sid'' (\<lambda>_. 0) real)\<lparr> current := Some 0 \<rparr>)
     = Some \<lparr> effects = [], consumed = [], raised = Some ValueError \<rparr> \<and>
   handle_POST cpython64 ''tick'' (\<lambda>d. Inr (JObject []))
       \<lparr> cookies = Map.empty, headers = [''content-length'' \<mapsto> ''9223372036854775808''],
         rfile = ''{}'', rfile_end = Eof \<rparr>
       ((sys_init ''sid'' (\<lambda>_. 0) real)\<lparr> current := Some 0 \<rparr>)
     = Some \<lparr> effects = [], consumed = [], raised = Some OverflowError \<rparr> \<and>
   handle_POST cpython64 ''tick'' (\<lambda>d. Inl (RecursionError, ''maximum recursion depth exceeded''))
       \<lparr> cookies = Map.empty, headers = [''content-length'' \<mapsto> ''2''], rfile = ''[['',
         rfile_end = Eof \<rparr>
       ((sys_init ''sid'' (\<lambda>_. 0) real)\<lparr> current := Some 0 \<rparr>)
     = Some \<lparr> effects = [], consumed = ''[['', raised = Some RecursionError \<rparr> \<and>
   handle_POST cpython64 ''tick'' (\<lambda>d. Inr (JObject []))
       \<lparr> cookies = Map.empty, headers = [''content-length'' \<mapsto> ''5''], rfile = ''{}'',
         rfile_end = Eof \<rparr>
       ((sys_init ''sid'' (\<lambda>_. 0) real)\<lparr> current := Some 0 \<rparr>)
     = Some \<lparr> effects = [NewEvent 0 ''tick'' (JObject []), SendResponse 202,
                     SendHeader ''content-type'' ''text/plain; charset=utf-8'',
                     SendHeader ''content-length'' ''0'', EndHeaders],
         consumed = ''{}'', raised = None \<rparr> \<and>
   handle_POST cpython64 ''tick'' (\<lambda>d. Inr (JObject []))
       \<lparr> cookies = Map.empty, headers = [''content-length'' \<mapsto> ''5''], rfile = ''{}'',
         rfile_end = Stalls \<rparr>
       ((sys_init ''sid'' (\<lambda>_. 0) real)\<lparr> current := Some 0 \<rparr>)
     = None"
  by (simp add: handle_POST_def py_int_examples rfile_read_examples new_event_def)

text \<open>
  Claim C3, amended. Take a POST request whose \<open>content-length\<close> header, when present, is
  accepted by \<open>int\<close>, is a size for which \<open>rfile.read\<close> returns, and is followed by a body
  that the decoding either accepts or refuses with a \<open>ValueError\<close>. Then the handler
  returns, raises nothing and sends exactly one status: 411 when the header is absent;
  otherwise it reads the body (exactly the given number of bytes when the body holds as
  many, and else all of it), and it sends 400 with a message when decoding fails, 400
  when the decoded value is not a mapping, 500 when the event dispatch fails for want of
  a current context, and otherwise 202 with the header \<open>content-length: 0\<close> and no body.
\<close>

theorem handle_POST_outcomes:
  assumes "\<forall>v. headers req ''content-length'' = Some v \<longrightarrow>
             (\<exists>n data. py_int p v = Some n \<and>
                rfile_read p n (rfile req) (rfile_end req) = Some (Inr data) \<and>
                (\<forall>e msg. loads data = Inl (e, msg) \<longrightarrow> e = ValueError))"
  shows "\<exists>r. handle_POST p name loads req s = Some r \<and> raised r = None \<and>
         (\<exists>c. statuses (effects r) = [c]) \<and>
         (case headers req ''content-length'' of
            None \<Rightarrow> effects r = [SendError 411 None] \<and> consumed r = []
          | Some v \<Rightarrow>
              (\<exists>n data. py_int p v = Some n \<and>
                 rfile_read p n (rfile req) (rfile_end req) = Some (Inr data) \<and>
                 consumed r = data \<and>
                 data = (if 0 \<le> n \<and> nat n \<le> length (rfile req)
                         then take (nat n) (rfile req) else rfile req) \<and>
                 (0 \<le> n \<and> nat n \<le> length (rfile req) \<longrightarrow> length data = nat n) \<and>
                 effects r =
                   (case loads data of
                      Inl (e, msg) \<Rightarrow> [SendError 400 (Some (''Bad request: '' @ msg))]
                    | Inr j \<Rightarrow>
                        if \<not> is_Mapping j
                        then [SendError 400 (Some ''Bad request: expect a JSON object'')]
                        else (case new_event name j s of
                                Inl e \<Rightarrow> [SendError 500 (Some ''No current context available.'')]
                              | Inr h \<Rightarrow> [NewEvent h name j, SendResponse 202,
                                          SendHeader ''content-type'' ''text/plain; charset=utf-8'',
                                          SendHeader ''content-length'' ''0'', EndHeaders]))))"
proof (cases "headers req ''content-length''")
  case None
  then show ?thesis by (simp add: handle_POST_def statuses_def)
next
  case (Some v)
  then obtain n data where n: "py_int p v = Some n"
      "rfile_read p n (rfile req) (rfile_end req) = Some (Inr data)"
    and l: "\<And>e msg. loads data = Inl (e, msg) \<Longrightarrow> e = ValueError"
    using assms by blast
  let ?E = "case loads data of
              Inl (e, msg) \<Rightarrow> [SendError 400 (Some (''Bad request: '' @ msg))]
            | Inr j \<Rightarrow>
                if \<not> is_Mapping j
                then [SendError 400 (Some ''Bad request: expect a JSON object'')]
                else (case new_event name j s of
                        Inl e \<Rightarrow> [SendError 500 (Some ''No current context available.'')]
                      | Inr h \<Rightarrow> [NewEvent h name j, SendResponse 202,
                                  SendHeader ''content-type'' ''text/plain; charset=utf-8'',
                                  SendHeader ''content-length'' ''0'', EndHeaders])"
  have d: "data = (if 0 \<le> n \<and> nat n \<le> length (rfile req)
                   then take (nat n) (rfile req) else rfile req)"
    using n(2) by (auto simp: rfile_read_def split: if_splits ending.splits)
  have len: "0 \<le> n \<and> nat n \<le> length (rfile req) \<longrightarrow> length data = nat n"
    unfolding d by auto
  have res: "\<exists>r. handle_POST p name loads req s = Some r \<and> raised r = None \<and>
             (\<exists>c. statuses (effects r) = [c]) \<and> consumed r = data \<and> effects r = ?E"
  proof (cases "loads data")
    case (Inl a)
    obtain e msg where a: "a = (e, msg)" by (cases a)
    have e: "e = ValueError" using l Inl a by simp
    show ?thesis using Some n Inl a e
      by (simp add: handle_POST_def statuses_def)
  next
    case (Inr j)
    show ?thesis using Some n Inr
      by (simp add: handle_POST_def statuses_def new_event_def split: option.split)
  qed
  then obtain r where r: "handle_POST p name loads req s = Some r" "raised r = None"
    "\<exists>c. statuses (effects r) = [c]" "consumed r = data" "effects r = ?E"
    by blast
  have "py_int p v = Some n \<and>
        rfile_read p n (rfile req) (rfile_end req) = Some (Inr data) \<and>
        consumed r = data \<and>
        data = (if 0 \<le> n \<and> nat n \<le> length (rfile req)
                then take (nat n) (rfile req) else rfile req) \<and>
        (0 \<le> n \<and> nat n \<le> length (rfile req) \<longrightarrow> length data = nat n) \<and>
        effects r = ?E"
    by (intro conjI n r(4) d len r(5))
  then have ex: "\<exists>n data. py_int p v = Some n \<and>
        rfile_read p n (rfile req) (rfile_end req) = Some (Inr data) \<and>
        consumed r = data \<and>
        data = (if 0 \<le> n \<and> nat n \<le> length (rfile req)
                then take (nat n) (rfile req) else rfile req) \<and>
        (0 \<le> n \<and> nat n \<le> length (rfile req) \<longrightarrow> length data = nat n) \<and>
        effects r =
          (case loads data of
              Inl (e, msg) \<Rightarrow> [SendError 400 (Some (''Bad request: '' @ msg))]
            | Inr j \<Rightarrow>
                if \<not> is_Mapping j
                then [SendError 400 (Some ''Bad request: expect a JSON object'')]
                else (case new_event name j s of
                        Inl e \<Rightarrow> [SendError 500 (Some ''No current context available.'')]
                      | Inr h \<Rightarrow> [NewEvent h name j, SendResponse 202,
                                  SendHeader ''content-type'' ''text/plain; charset=utf-8'',
                                  SendHeader ''content-length'' ''0'', EndHeaders]))"
    by (intro exI [of _ n] exI [of _ data])
  show ?thesis
    unfolding Some option.case
    by (intro exI [of _ r] conjI r(1) r(2) r(3) ex)
qed

text \<open>
  The theorem for the header \<open>content-length: 2\<close>, the body \<open>{}\<close> on a connection the peer
  keeps open, and an activated context.
\<close>

theorem handle_POST_outcomes_witness:
  "headers \<lparr> cookies = Map.empty, headers = [''content-length'' \<mapsto> ''2''], rfile = ''{}'',
             rfile_end = Stalls \<rparr> ''content-length'' = Some ''2'' \<and>
   py_int cpython64 ''2'' = Some 2 \<and>
   rfile_read cpython64 2 ''{}'' Stalls = Some (Inr ''{}'') \<and>
   handle_POST cpython64 ''tick''
       (\<lambda>d. if d = ''{}'' then Inr (JObject []) else Inl (ValueError, ''no JSON''))
       \<lparr> cookies = Map.empty, headers = [''content-length'' \<mapsto> ''2''], rfile = ''{}'',
         rfile_end = Stalls \<rparr>
       ((sys_init ''sid'' (\<lambda>_. 0) real)\<lparr> current := Some 0 \<rparr>)
     = Some \<lparr> effects = [NewEvent 0 ''tick'' (JObject []), SendResponse 202,
                     SendHeader ''content-type'' ''text/plain; charset=utf-8'',
                     SendHeader ''content-length'' ''0'', EndHeaders],
         consumed = ''{}'', raised = None \<rparr>"
proof -
  let ?req = "\<lparr> cookies = Map.empty, headers = [''content-length'' \<mapsto> ''2''], rfile = ''{}'',
                rfile_end = Stalls \<rparr>"
  let ?loads = "\<lambda>d. if d = ''{}'' then Inr (JObject []) else Inl (ValueError, ''no JSON'')"
  let ?s = "(sys_init ''sid'' (\<lambda>_. 0) real)\<lparr> current := Some 0 \<rparr>"
  have p: "py_int cpython64 ''2'' = Some 2" by (rule py_int_examples)
  have rd: "rfile_read cpython64 2 ''{}'' Stalls = Some (Inr ''{}'')" by (rule rfile_read_examples)
  have hd: "headers ?req ''content-length'' = Some ''2''" by simp
  have h: "\<forall>v. headers ?req ''content-length'' = Some v \<longrightarrow>
             (\<exists>n data. py_int cpython64 v = Some n \<and>
                rfile_read cpython64 n (rfile ?req) (rfile_end ?req) = Some (Inr data) \<and>
                (\<forall>e msg. ?loads data = Inl (e, msg) \<longrightarrow> e = ValueError))"
    using p rd by simp
  obtain r where r0: "handle_POST cpython64 ''tick'' ?loads ?req ?s = Some r \<and> raised r = None \<and>
         (\<exists>c. statuses (effects r) = [c]) \<and>
         (case headers ?req ''content-length'' of
            None \<Rightarrow> effects r = [SendError 411 None] \<and> consumed r = []
          | Some v \<Rightarrow>
              (\<exists>n data. py_int cpython64 v = Some n \<and>
                 rfile_read cpython64 n (rfile ?req) (rfile_end ?req) = Some (Inr data) \<and>
                 consumed r = data \<and>
                 data = (if 0 \<le> n \<and> nat n \<le> length (rfile ?req)
                         then take (nat n) (rfile ?req) else rfile ?req) \<and>
                 (0 \<le> n \<and> nat n \<le> length (rfile ?req) \<longrightarrow> length data = nat n) \<and>
                 effects r =
                   (case ?loads data of
                      Inl (e, msg) \<Rightarrow> [SendError 400 (Some (''Bad request: '' @ msg))]
                    | Inr j \<Rightarrow>
                        if \<not> is_Mapping j
                        then [SendError 400 (Some ''Bad request: expect a JSON object'')]
                        else (case new_event ''tick'' j ?s of
                                Inl e \<Rightarrow> [SendError 500 (Some ''No current context available.'')]
                              | Inr h \<Rightarrow> [NewEvent h ''tick'' j, SendResponse 202,
                                          SendHeader ''content-type'' ''text/plain; charset=utf-8'',
                                          SendHeader ''content-length'' ''0'', EndHeaders]))))"
    using handle_POST_outcomes [OF h, of "''tick''" ?s] by (elim exE)
  have r1: "handle_POST cpython64 ''tick'' ?loads ?req ?s = Some r" using r0 by (elim conjE)
  have r2: "raised r = None" using r0 by (elim conjE)
  have "case headers ?req ''content-length'' of
            None \<Rightarrow> effects r = [SendError 411 None] \<and> consumed r = []
          | Some v \<Rightarrow>
              (\<exists>n data. py_int cpython64 v = Some n \<and>
                 rfile_read cpython64 n (rfile ?req) (rfile_end ?req) = Some (Inr data) \<and>
                 consumed r = data \<and>
                 data = (if 0 \<le> n \<and> nat n \<le> length (rfile ?req)
                         then take (nat n) (rfile ?req) else rfile ?req) \<and>
                 (0 \<le> n \<and> nat n \<le> length (rfile ?req) \<longrightarrow> length data = nat n) \<and>
                 effects r =
                   (case ?loads data of
                      Inl (e, msg) \<Rightarrow> [SendError 400 (Some (''Bad request: '' @ msg))]
                    | Inr j \<Rightarrow>
                        if \<not> is_Mapping j
                        then [SendError 400 (Some ''Bad request: expect a JSON object'')]
                        else (case new_event ''tick'' j ?s of
                                Inl e \<Rightarrow> [SendError 500 (Some ''No current context available.'')]
                              | Inr h \<Rightarrow> [NewEvent h ''tick'' j, SendResponse 202,
                                          SendHeader ''content-type'' ''text/plain; charset=utf-8'',
                                          SendHeader ''content-length'' ''0'', EndHeaders])))"
    using r0 by (elim conjE)
  then obtain n data where nd: "py_int cpython64 ''2'' = Some n \<and>
                 rfile_read cpython64 n (rfile ?req) (rfile_end ?req) = Some (Inr data) \<and>
                 consumed r = data \<and>
                 data = (if 0 \<le> n \<and> nat n \<le> length (rfile ?req)
                         then take (nat n) (rfile ?req) else rfile ?req) \<and>
                 (0 \<le> n \<and> nat n \<le> length (rfile ?req) \<longrightarrow> length data = nat n) \<and>
                 effects r =
                   (case ?loads data of
                      Inl (e, msg) \<Rightarrow> [SendError 400 (Some (''Bad request: '' @ msg))]
                    | Inr j \<Rightarrow>
                        if \<not> is_Mapping j
                        then [SendError 400 (Some ''Bad request: expect a JSON object'')]
                        else (case new_event ''tick'' j ?s of
                                Inl e \<Rightarrow> [SendError 500 (Some ''No current context available.'')]
                              | Inr h \<Rightarrow> [NewEvent h ''tick'' j, SendResponse 202,
                                          SendHeader ''content-type'' ''text/plain; charset=utf-8'',
                                          SendHeader ''content-length'' ''0'', EndHeaders]))"
    unfolding hd option.case by (elim exE)
  have "py_int cpython64 ''2'' = Some n" using nd by (elim conjE)
  then have n2: "n = 2" unfolding p by simp
  have "rfile_read cpython64 n (rfile ?req) (rfile_end ?req) = Some (Inr data)"
    using nd by (elim conjE)
  then have dt: "data = ''{}''" unfolding n2 by (simp add: rd)
  have c: "consumed r = ''{}''" using nd unfolding dt by (elim conjE)
  have "effects r =
                   (case ?loads data of
                      Inl (e, msg) \<Rightarrow> [SendError 400 (Some (''Bad request: '' @ msg))]
                    | Inr j \<Rightarrow>
                        if \<not> is_Mapping j
                        then [SendError 400 (Some ''Bad request: expect a JSON object'')]
                        else (case new_event ''tick'' j ?s of
                                Inl e \<Rightarrow> [SendError 500 (Some ''No current context available.'')]
                              | Inr h \<Rightarrow> [NewEvent h ''tick'' j, SendResponse 202,
                                          SendHeader ''content-type'' ''text/plain; charset=utf-8'',
                                          SendHeader ''content-length'' ''0'', EndHeaders]))"
    using nd by (elim conjE)
  then have e: "effects r =
         [NewEvent 0 ''tick'' (JObject []), SendResponse 202,
          SendHeader ''content-type'' ''text/plain; charset=utf-8'',
          SendHeader ''content-length'' ''0'', EndHeaders]"
    unfolding dt by (simp add: new_event_def)
  have "r = \<lparr> effects = effects r, consumed = consumed r, raised = raised r \<rparr>"
    by simp
  then have "r =
      \<lparr> effects = [NewEvent 0 ''tick'' (JObject []), SendResponse 202,
                     SendHeader ''content-type'' ''text/plain; charset=utf-8'',
                     SendHeader ''content-length'' ''0'', EndHeaders],
         consumed = ''{}'', raised = None \<rparr>"
    unfolding c e r2 .
  then have "handle_POST cpython64 ''tick'' ?loads ?req ?s =
      Some \<lparr> effects = [NewEvent 0 ''tick'' (JObject []), SendResponse 202,
                     SendHeader ''content-type'' ''text/plain; charset=utf-8'',
                     SendHeader ''content-length'' ''0'', EndHeaders],
         consumed = ''{}'', raised = None \<rparr>"
    using r1 by simp
  then show ?thesis using hd p rd by (intro conjI)
qed

text \<open>
  Claim C2. \<open>activate(id)\<close> always returns. When \<open>id\<close> is not a key of the sessions
  dictionary it constructs one context named \<open>id\<close>, starts it, and inserts a session
  holding it under \<open>id\<close>; when \<open>id\<close> is a key it constructs nothing and keeps the
  session's context. In both cases it then activates the entry for \<open>id\<close>: the entry's
  \<open>seen\<close> is the clock reading taken at that moment and its context is the current
  context; no other key changes. A second call with the same \<open>id\<close> constructs no
  context, adds no key, keeps the context of the entry, and, the clock being strictly
  increasing, leaves a strictly greater \<open>seen\<close>.
\<close>

theorem activate_twice:
  assumes mono: "\<forall>i. clock s i < clock s (Suc i)"
  shows "\<exists>s1 s2 sess1 sess2.
     activate name s = Inr s1 \<and> activate name s1 = Inr s2 \<and>
     sessions s1 name = Some sess1 \<and> sessions s2 name = Some sess2 \<and>
     (case sessions s name of
        None \<Rightarrow> ctxs s1 = ctxs s @ [(name, True)] \<and> sess_context sess1 = length (ctxs s) \<and>
                seen sess1 = clock s (Suc (ticks s))
      | Some sess0 \<Rightarrow> ctxs s1 = ctxs s \<and> sess_context sess1 = sess_context sess0 \<and>
                seen sess1 = clock s (ticks s)) \<and>
     dom (sessions s1) = insert name (dom (sessions s)) \<and>
     (\<forall>k. k \<noteq> name \<longrightarrow> sessions s1 k = sessions s k) \<and>
     current s1 = Some (sess_context sess1) \<and>
     ctxs s2 = ctxs s1 \<and> dom (sessions s2) = dom (sessions s1) \<and>
     (\<forall>k. k \<noteq> name \<longrightarrow> sessions s2 k = sessions s1 k) \<and>
     sess_context sess2 = sess_context sess1 \<and> current s2 = Some (sess_context sess1) \<and>
     seen sess1 < seen sess2"
proof (cases "sessions s name")
  case None
  let ?sess1 = "\<lparr> sess_context = length (ctxs s), seen = clock s (Suc (ticks s)) \<rparr>"
  let ?s1 = "s\<lparr> ctxs := ctxs s @ [(name, True)], ticks := Suc (Suc (ticks s)),
               sessions := (sessions s)(name \<mapsto> ?sess1), current := Some (length (ctxs s)) \<rparr>"
  let ?sess2 = "?sess1\<lparr> seen := clock ?s1 (ticks ?s1) \<rparr>"
  let ?s2 = "?s1\<lparr> ticks := Suc (ticks ?s1), sessions := (sessions ?s1)(name \<mapsto> ?sess2),
                 current := Some (sess_context ?sess1) \<rparr>"
  have a1: "activate name s = Inr ?s1" by (rule activate_absent [OF None])
  have p1: "sessions ?s1 name = Some ?sess1" by simp
  have a2: "activate name ?s1 = Inr ?s2" by (rule activate_present [OF p1])
  have p2: "sessions ?s2 name = Some ?sess2" by simp
  have lt: "seen ?sess1 < seen ?sess2" using mono by simp
  have rest: "(case sessions s name of
        None \<Rightarrow> ctxs ?s1 = ctxs s @ [(name, True)] \<and> sess_context ?sess1 = length (ctxs s) \<and>
                seen ?sess1 = clock s (Suc (ticks s))
      | Some sess0 \<Rightarrow> ctxs ?s1 = ctxs s \<and> sess_context ?sess1 = sess_context sess0 \<and>
                seen ?sess1 = clock s (ticks s)) \<and>
     dom (sessions ?s1) = insert name (dom (sessions s)) \<and>
     (\<forall>k. k \<noteq> name \<longrightarrow> sessions ?s1 k = sessions s k) \<and>
     current ?s1 = Some (sess_context ?sess1) \<and>
     ctxs ?s2 = ctxs ?s1 \<and> dom (sessions ?s2) = dom (sessions ?s1) \<and>
     (\<forall>k. k \<noteq> name \<longrightarrow> sessions ?s2 k = sessions ?s1 k) \<and>
     sess_context ?sess2 = sess_context ?sess1 \<and> current ?s2 = Some (sess_context ?sess1)"
    using None by simp
  show ?thesis
    apply (rule exI [of _ ?s1])
    apply (rule exI [of _ ?s2])
    apply (rule exI [of _ ?sess1])
    apply (rule exI [of _ ?sess2])
    using a1 a2 p1 p2 rest lt apply (intro conjI)
    apply (elim conjE, assumption)+
    done
next
  case (Some sess0)
  let ?sess1 = "sess0\<lparr> seen := clock s (ticks s) \<rparr>"
  let ?s1 = "s\<lparr> ticks := Suc (ticks s), sessions := (sessions s)(name \<mapsto> ?sess1),
               current := Some (sess_context sess0) \<rparr>"
  let ?sess2 = "?sess1\<lparr> seen := clock ?s1 (ticks ?s1) \<rparr>"
  let ?s2 = "?s1\<lparr> ticks := Suc (ticks ?s1), sessions := (sessions ?s1)(name \<mapsto> ?sess2),
                 current := Some (sess_context ?sess1) \<rparr>"
  have a1: "activate name s = Inr ?s1" by (rule activate_present [OF Some])
  have p1: "sessions ?s1 name = Some ?sess1" by simp
  have a2: "activate name ?s1 = Inr ?s2" by (rule activate_present [OF p1])
  have p2: "sessions ?s2 name = Some ?sess2" by simp
  have lt: "seen ?sess1 < seen ?sess2" using mono by simp
  have ins: "insert name (dom (sessions s)) = dom (sessions s)" using Some by auto
  have rest: "(case sessions s name of
        None \<Rightarrow> ctxs ?s1 = ctxs s @ [(name, True)] \<and> sess_context ?sess1 = length (ctxs s) \<and>
                seen ?sess1 = clock s (Suc (ticks s))
      | Some sess0 \<Rightarrow> ctxs ?s1 = ctxs s \<and> sess_context ?sess1 = sess_context sess0 \<and>
                seen ?sess1 = clock s (ticks s)) \<and>
     dom (sessions ?s1) = insert name (dom (sessions s)) \<and>
     (\<forall>k. k \<noteq> name \<longrightarrow> sessions ?s1 k = sessions s k) \<and>
     current ?s1 = Some (sess_context ?sess1) \<and>
     ctxs ?s2 = ctxs ?s1 \<and> dom (sessions ?s2) = dom (sessions ?s1) \<and>
     (\<forall>k. k \<noteq> name \<longrightarrow> sessions ?s2 k = sessions ?s1 k) \<and>
     sess_context ?sess2 = sess_context ?sess1 \<and> current ?s2 = Some (sess_context ?sess1)"
    using Some ins by simp
  show ?thesis
    apply (rule exI [of _ ?s1])
    apply (rule exI [of _ ?s2])
    apply (rule exI [of _ ?sess1])
    apply (rule exI [of _ ?sess2])
    using a1 a2 p1 p2 rest lt apply (intro conjI)
    apply (elim conjE, assumption)+
    done
qed

text \<open>The theorem in a fresh process, for the clock that reads 0, 1, 2, ...\<close>

theorem activate_twice_witness:
  "(\<forall>i. clock (sys_init ''sid'' (\<lambda>_. 0) real) i < clock (sys_init ''sid'' (\<lambda>_. 0) real) (Suc i)) \<and>
   (\<exists>s1 s2 sess1 sess2.
      activate ''alpha-red'' (sys_init ''sid'' (\<lambda>_. 0) real) = Inr s1 \<and>
      activate ''alpha-red'' s1 = Inr s2 \<and>
      sessions s1 ''alpha-red'' = Some sess1 \<and> sessions s2 ''alpha-red'' = Some sess2 \<and>
      ctxs s1 = [(''alpha-red'', True)] \<and> ctxs s2 = [(''alpha-red'', True)] \<and>
      sess_context sess1 = 0 \<and> sess_context sess2 = 0 \<and>
      dom (sessions s2) = {''alpha-red''} \<and>
      seen sess1 = 1 \<and> seen sess1 < seen sess2)"
proof -
  let ?s = "sys_init ''sid'' (\<lambda>_. 0) real"
  have m: "\<forall>i. clock ?s i < clock ?s (Suc i)" by (simp add: sys_init_def)
  have n: "sessions ?s ''alpha-red'' = None" by (simp add: sys_init_def)
  obtain s1 s2 sess1 sess2 where t: "activate ''alpha-red'' ?s = Inr s1 \<and> activate ''alpha-red'' s1 = Inr s2 \<and>
     sessions s1 ''alpha-red'' = Some sess1 \<and> sessions s2 ''alpha-red'' = Some sess2 \<and>
     (case sessions ?s ''alpha-red'' of
        None \<Rightarrow> ctxs s1 = ctxs ?s @ [(''alpha-red'', True)] \<and> sess_context sess1 = length (ctxs ?s) \<and>
                seen sess1 = clock ?s (Suc (ticks ?s))
      | Some sess0 \<Rightarrow> ctxs s1 = ctxs ?s \<and> sess_context sess1 = sess_context sess0 \<and>
                seen sess1 = clock ?s (ticks ?s)) \<and>
     dom (sessions s1) = insert ''alpha-red'' (dom (sessions ?s)) \<and>
     (\<forall>k. k \<noteq> ''alpha-red'' \<longrightarrow> sessions s1 k = sessions ?s k) \<and>
     current s1 = Some (sess_context sess1) \<and>
     ctxs s2 = ctxs s1 \<and> dom (sessions s2) = dom (sessions s1) \<and>
     (\<forall>k. k \<noteq> ''alpha-red'' \<longrightarrow> sessions s2 k = sessions s1 k) \<and>
     sess_context sess2 = sess_context sess1 \<and> current s2 = Some (sess_context sess1) \<and>
     seen sess1 < seen sess2"
    using activate_twice [OF m, of "''alpha-red''"] by (elim exE)
  have t1: "activate ''alpha-red'' ?s = Inr s1" using t by (elim conjE)
  have t2: "activate ''alpha-red'' s1 = Inr s2" using t by (elim conjE)
  have t3: "sessions s1 ''alpha-red'' = Some sess1" using t by (elim conjE)
  have t4: "sessions s2 ''alpha-red'' = Some sess2" using t by (elim conjE)
  have "case sessions ?s ''alpha-red'' of
        None \<Rightarrow> ctxs s1 = ctxs ?s @ [(''alpha-red'', True)] \<and> sess_context sess1 = length (ctxs ?s) \<and>
                seen sess1 = clock ?s (Suc (ticks ?s))
      | Some sess0 \<Rightarrow> ctxs s1 = ctxs ?s \<and> sess_context sess1 = sess_context sess0 \<and>
                seen sess1 = clock ?s (ticks ?s)"
    using t by (elim conjE)
  then have c: "ctxs s1 = ctxs ?s @ [(''alpha-red'', True)] \<and> sess_context sess1 = length (ctxs ?s) \<and>
                seen sess1 = clock ?s (Suc (ticks ?s))"
    unfolding n option.case .
  have c1: "ctxs s1 = [(''alpha-red'', True)]" using conjunct1 [OF c] by (simp add: sys_init_def)
  have c2: "sess_context sess1 = 0" using conjunct1 [OF conjunct2 [OF c]] by (simp add: sys_init_def)
  have c3: "seen sess1 = 1" using conjunct2 [OF conjunct2 [OF c]] by (simp add: sys_init_def)
  have "dom (sessions s1) = insert ''alpha-red'' (dom (sessions ?s))" using t by (elim conjE)
  then have d1: "dom (sessions s1) = {''alpha-red''}" by (simp add: sys_init_def)
  have "ctxs s2 = ctxs s1" using t by (elim conjE)
  then have c4: "ctxs s2 = [(''alpha-red'', True)]" unfolding c1 .
  have "dom (sessions s2) = dom (sessions s1)" using t by (elim conjE)
  then have d2: "dom (sessions s2) = {''alpha-red''}" unfolding d1 .
  have "sess_context sess2 = sess_context sess1" using t by (elim conjE)
  then have c5: "sess_context sess2 = 0" unfolding c2 .
  have lt: "seen sess1 < seen sess2" using t by (elim conjE)
  have "activate ''alpha-red'' ?s = Inr s1 \<and>
      activate ''alpha-red'' s1 = Inr s2 \<and>
      sessions s1 ''alpha-red'' = Some sess1 \<and> sessions s2 ''alpha-red'' = Some sess2 \<and>
      ctxs s1 = [(''alpha-red'', True)] \<and> ctxs s2 = [(''alpha-red'', True)] \<and>
      sess_context sess1 = 0 \<and> sess_context sess2 = 0 \<and>
      dom (sessions s2) = {''alpha-red''} \<and>
      seen sess1 = 1 \<and> seen sess1 < seen sess2"
    by (intro conjI t1 t2 t3 t4 c1 c4 c2 c5 d2 c3 lt)
  then have e: "\<exists>s1 s2 sess1 sess2.
      activate ''alpha-red'' ?s = Inr s1 \<and>
      activate ''alpha-red'' s1 = Inr s2 \<and>
      sessions s1 ''alpha-red'' = Some sess1 \<and> sessions s2 ''alpha-red'' = Some sess2 \<and>
      ctxs s1 = [(''alpha-red'', True)] \<and> ctxs s2 = [(''alpha-red'', True)] \<and>
      sess_context sess1 = 0 \<and> sess_context sess2 = 0 \<and>
      dom (sessions s2) = {''alpha-red''} \<and>
      seen sess1 = 1 \<and> seen sess1 < seen sess2"
    by (intro exI [of _ s1] exI [of _ s2] exI [of _ sess1] exI [of _ sess2])
  show ?thesis by (intro conjI m e)
qed

text \<open>
  Claim C5, as stated for every request, fails: when the manager's cookie name is one the
  cookie library refuses, here \<open>my cookie\<close>, and the request carries no such cookie, the
  filter is left by \<open>CookieError\<close> when it stores the new value; it sends no header and
  never reaches the call of \<open>activate\<close>.
\<close>

theorem handle_illegal_cookie_name:
  "handle \<lparr> cookies = Map.empty, headers = Map.empty, rfile = [], rfile_end = Eof \<rparr>
          (sys_init ''my cookie'' (\<lambda>_. 0) real) = Some (Inl CookieError)"
proof -
  let ?req = "\<lparr> cookies = Map.empty, headers = Map.empty, rfile = [], rfile_end = Eof \<rparr>"
  let ?s = "sys_init ''my cookie'' (\<lambda>_. 0) real"
  have c: "cookie ?s = ''my cookie''" by (simp add: sys_init_def)
  have ab: "cookies ?req (cookie ?s) = None" by simp
  have no: "\<not> cookie_key_ok (cookie ?s)" unfolding c by (rule cookie_key_examples)
  obtain v ns s2 where h: "generate_name ?s = Some (v, ?s\<lparr> names := ns \<rparr>) \<and> v \<notin> dom (sessions ?s) \<and>
           quote v = v \<and> activate v (?s\<lparr> names := ns \<rparr>) = Inr s2 \<and>
           handle ?req ?s =
             (if cookie_key_ok (cookie ?s)
              then Some (Inr ([SendHeader ''Set-Cookie'' ('' '' @ cookie ?s @ ''='' @ v @ ''; Path=/'')],
                              ?req\<lparr> cookies := (cookies ?req)(cookie ?s \<mapsto> \<lparr> mvalue = v, mpath = ''/'' \<rparr>) \<rparr>,
                              s2))
              else Some (Inl CookieError))"
    using handle_absent [OF sys_ok_init ab] by (elim exE)
  have "handle ?req ?s =
             (if cookie_key_ok (cookie ?s)
              then Some (Inr ([SendHeader ''Set-Cookie'' ('' '' @ cookie ?s @ ''='' @ v @ ''; Path=/'')],
                              ?req\<lparr> cookies := (cookies ?req)(cookie ?s \<mapsto> \<lparr> mvalue = v, mpath = ''/'' \<rparr>) \<rparr>,
                              s2))
              else Some (Inl CookieError))"
    using h by (elim conjE)
  then show ?thesis unfolding if_not_P [OF no] .
qed

text \<open>
  Claim C5, amended. In every reachable state, and for a manager whose cookie name the
  cookie library accepts when a new cookie has to be set, \<open>handle\<close> returns and ends with
  the call \<open>activate(v)\<close>, where: when the request has no cookie of the manager's name,
  \<open>v\<close> is the result of \<open>generate_name\<close>, not a key of the sessions dictionary, the one
  header sent is \<open>Set-Cookie\<close> with the text \<open>name=v; Path=/\<close> after a blank, and the
  request's cookie jar holds \<open>v\<close> with path \<open>/\<close>; when the request has the cookie, \<open>v\<close> is
  its value, whatever it is, no header is sent and the jar is unchanged.
\<close>

theorem handle_cookie:
  assumes ok: "sys_ok s" and key: "cookies req (cookie s) = None \<longrightarrow> cookie_key_ok (cookie s)"
  shows "case cookies req (cookie s) of
           None \<Rightarrow>
             (\<exists>v ns s2. generate_name s = Some (v, s\<lparr> names := ns \<rparr>) \<and> v \<notin> dom (sessions s) \<and>
                activate v (s\<lparr> names := ns \<rparr>) = Inr s2 \<and>
                handle req s =
                  Some (Inr ([SendHeader ''Set-Cookie'' ('' '' @ cookie s @ ''='' @ v @ ''; Path=/'')],
                             req\<lparr> cookies := (cookies req)(cookie s \<mapsto> \<lparr> mvalue = v, mpath = ''/'' \<rparr>) \<rparr>,
                             s2)))
         | Some m \<Rightarrow>
             (\<exists>s2. activate (mvalue m) s = Inr s2 \<and> handle req s = Some (Inr ([], req, s2)))"
proof (cases "cookies req (cookie s)")
  case None
  have k: "cookie_key_ok (cookie s)" using key None by simp
  obtain v ns s2 where h: "generate_name s = Some (v, s\<lparr> names := ns \<rparr>) \<and> v \<notin> dom (sessions s) \<and>
           quote v = v \<and> activate v (s\<lparr> names := ns \<rparr>) = Inr s2 \<and>
           handle req s =
             (if cookie_key_ok (cookie s)
              then Some (Inr ([SendHeader ''Set-Cookie'' ('' '' @ cookie s @ ''='' @ v @ ''; Path=/'')],
                              req\<lparr> cookies := (cookies req)(cookie s \<mapsto> \<lparr> mvalue = v, mpath = ''/'' \<rparr>) \<rparr>,
                              s2))
              else Some (Inl CookieError))"
    using handle_absent [OF ok None] by (elim exE)
  have h1: "generate_name s = Some (v, s\<lparr> names := ns \<rparr>)" using h by (elim conjE)
  have h2: "v \<notin> dom (sessions s)" using h by (elim conjE)
  have h3: "activate v (s\<lparr> names := ns \<rparr>) = Inr s2" using h by (elim conjE)
  have "handle req s =
             (if cookie_key_ok (cookie s)
              then Some (Inr ([SendHeader ''Set-Cookie'' ('' '' @ cookie s @ ''='' @ v @ ''; Path=/'')],
                              req\<lparr> cookies := (cookies req)(cookie s \<mapsto> \<lparr> mvalue = v, mpath = ''/'' \<rparr>) \<rparr>,
                              s2))
              else Some (Inl CookieError))"
    using h by (elim conjE)
  then have h4: "handle req s =
      Some (Inr ([SendHeader ''Set-Cookie'' ('' '' @ cookie s @ ''='' @ v @ ''; Path=/'')],
                 req\<lparr> cookies := (cookies req)(cookie s \<mapsto> \<lparr> mvalue = v, mpath = ''/'' \<rparr>) \<rparr>,
                 s2))"
    unfolding if_P [OF k] .
  have "generate_name s = Some (v, s\<lparr> names := ns \<rparr>) \<and> v \<notin> dom (sessions s) \<and>
                activate v (s\<lparr> names := ns \<rparr>) = Inr s2 \<and>
                handle req s =
                  Some (Inr ([SendHeader ''Set-Cookie'' ('' '' @ cookie s @ ''='' @ v @ ''; Path=/'')],
                             req\<lparr> cookies := (cookies req)(cookie s \<mapsto> \<lparr> mvalue = v, mpath = ''/'' \<rparr>) \<rparr>,
                             s2))"
    by (intro conjI h1 h2 h3 h4)
  then have "\<exists>v ns s2. generate_name s = Some (v, s\<lparr> names := ns \<rparr>) \<and> v \<notin> dom (sessions s) \<and>
                activate v (s\<lparr> names := ns \<rparr>) = Inr s2 \<and>
                handle req s =
                  Some (Inr ([SendHeader ''Set-Cookie'' ('' '' @ cookie s @ ''='' @ v @ ''; Path=/'')],
                             req\<lparr> cookies := (cookies req)(cookie s \<mapsto> \<lparr> mvalue = v, mpath = ''/'' \<rparr>) \<rparr>,
                             s2))"
    by (intro exI [of _ v] exI [of _ ns] exI [of _ s2])
  then show ?thesis unfolding None option.case .
next
  case (Some m)
  show ?thesis unfolding Some option.case by (rule handle_present [OF Some])
qed

text \<open>
  The theorem in a fresh process with the cookie name \<open>sid\<close>: for a request without
  cookies, and for a request with the cookie \<open>sid=forged\<close>.
\<close>

theorem handle_cookie_witness:
  "sys_ok (sys_init ''sid'' (\<lambda>_. 0) real) \<and> cookie_key_ok ''sid'' \<and>
   (\<exists>v ns s2.
      generate_name (sys_init ''sid'' (\<lambda>_. 0) real)
        = Some (v, (sys_init ''sid'' (\<lambda>_. 0) real)\<lparr> names := ns \<rparr>) \<and>
      activate v ((sys_init ''sid'' (\<lambda>_. 0) real)\<lparr> names := ns \<rparr>) = Inr s2 \<and>
      handle \<lparr> cookies = Map.empty, headers = Map.empty, rfile = [], rfile_end = Eof \<rparr>
             (sys_init ''sid'' (\<lambda>_. 0) real)
        = Some (Inr ([SendHeader ''Set-Cookie'' ('' sid='' @ v @ ''; Path=/'')],
                     \<lparr> cookies = [''sid'' \<mapsto> \<lparr> mvalue = v, mpath = ''/'' \<rparr>], headers = Map.empty,
                       rfile = [], rfile_end = Eof \<rparr>, s2))) \<and>
   (\<exists>s2.
      activate ''forged'' (sys_init ''sid'' (\<lambda>_. 0) real) = Inr s2 \<and>
      handle \<lparr> cookies = [''sid'' \<mapsto> \<lparr> mvalue = ''forged'', mpath = [] \<rparr>], headers = Map.empty,
               rfile = [], rfile_end = Eof \<rparr>
             (sys_init ''sid'' (\<lambda>_. 0) real)
        = Some (Inr ([], \<lparr> cookies = [''sid'' \<mapsto> \<lparr> mvalue = ''forged'', mpath = [] \<rparr>],
                           headers = Map.empty, rfile = [], rfile_end = Eof \<rparr>, s2)))"
proof -
  let ?s = "sys_init ''sid'' (\<lambda>_. 0) real"
  let ?r1 = "\<lparr> cookies = Map.empty, headers = Map.empty, rfile = [], rfile_end = Eof \<rparr>"
  let ?r2 = "\<lparr> cookies = [''sid'' \<mapsto> \<lparr> mvalue = ''forged'', mpath = [] \<rparr>], headers = Map.empty,
               rfile = [], rfile_end = Eof \<rparr>"
  have c: "cookie ?s = ''sid''" by (simp add: sys_init_def)
  have k: "cookie_key_ok ''sid''" by (rule cookie_key_examples)
  have k1: "cookies ?r1 (cookie ?s) = None \<longrightarrow> cookie_key_ok (cookie ?s)" unfolding c using k by simp
  have k2: "cookies ?r2 (cookie ?s) = None \<longrightarrow> cookie_key_ok (cookie ?s)" unfolding c using k by simp
  have n1: "cookies ?r1 (cookie ?s) = None" by simp
  have n2: "cookies ?r2 (cookie ?s) = Some \<lparr> mvalue = ''forged'', mpath = [] \<rparr>" unfolding c by simp
  note t1 = handle_cookie [OF sys_ok_init k1, unfolded n1 option.case]
  note t2 = handle_cookie [OF sys_ok_init k2, unfolded n2 option.case]
  obtain v ns s2 where a: "generate_name ?s = Some (v, ?s\<lparr> names := ns \<rparr>) \<and> v \<notin> dom (sessions ?s) \<and>
                activate v (?s\<lparr> names := ns \<rparr>) = Inr s2 \<and>
                handle ?r1 ?s =
                  Some (Inr ([SendHeader ''Set-Cookie'' ('' '' @ cookie ?s @ ''='' @ v @ ''; Path=/'')],
                             ?r1\<lparr> cookies := (cookies ?r1)(cookie ?s \<mapsto> \<lparr> mvalue = v, mpath = ''/'' \<rparr>) \<rparr>,
                             s2))"
    using t1 by (elim exE)
  have a1: "generate_name ?s = Some (v, ?s\<lparr> names := ns \<rparr>)" using a by (elim conjE)
  have a3: "activate v (?s\<lparr> names := ns \<rparr>) = Inr s2" using a by (elim conjE)
  have "handle ?r1 ?s =
                  Some (Inr ([SendHeader ''Set-Cookie'' ('' '' @ cookie ?s @ ''='' @ v @ ''; Path=/'')],
                             ?r1\<lparr> cookies := (cookies ?r1)(cookie ?s \<mapsto> \<lparr> mvalue = v, mpath = ''/'' \<rparr>) \<rparr>,
                             s2))"
    using a by (elim conjE)
  then have a4: "handle ?r1 ?s
        = Some (Inr ([SendHeader ''Set-Cookie'' ('' sid='' @ v @ ''; Path=/'')],
                     \<lparr> cookies = [''sid'' \<mapsto> \<lparr> mvalue = v, mpath = ''/'' \<rparr>], headers = Map.empty,
                       rfile = [], rfile_end = Eof \<rparr>, s2))"
    unfolding c by simp
  have "generate_name ?s = Some (v, ?s\<lparr> names := ns \<rparr>) \<and>
      activate v (?s\<lparr> names := ns \<rparr>) = Inr s2 \<and>
      handle ?r1 ?s
        = Some (Inr ([SendHeader ''Set-Cookie'' ('' sid='' @ v @ ''; Path=/'')],
                     \<lparr> cookies = [''sid'' \<mapsto> \<lparr> mvalue = v, mpath = ''/'' \<rparr>], headers = Map.empty,
                       rfile = [], rfile_end = Eof \<rparr>, s2))"
    by (intro conjI a1 a3 a4)
  then have e1: "\<exists>v ns s2.
      generate_name ?s = Some (v, ?s\<lparr> names := ns \<rparr>) \<and>
      activate v (?s\<lparr> names := ns \<rparr>) = Inr s2 \<and>
      handle ?r1 ?s
        = Some (Inr ([SendHeader ''Set-Cookie'' ('' sid='' @ v @ ''; Path=/'')],
                     \<lparr> cookies = [''sid'' \<mapsto> \<lparr> mvalue = v, mpath = ''/'' \<rparr>], headers = Map.empty,
                       rfile = [], rfile_end = Eof \<rparr>, s2))"
    by (intro exI [of _ v] exI [of _ ns] exI [of _ s2])
  have e2: "\<exists>s2. activate ''forged'' ?s = Inr s2 \<and> handle ?r2 ?s = Some (Inr ([], ?r2, s2))"
    using t2 by simp
  show ?thesis
    apply (rule conjI) apply (rule sys_ok_init)
    apply (rule conjI) apply (rule k)
    apply (rule conjI) apply (rule e1)
    apply (rule e2)
    done
qed

text \<open>
  Claim C1. From every reachable state, every sequence of \<open>generate_name()\<close> and
  \<open>activate(name)\<close> calls on a manager, in any order and with any names activated in
  between (among them names \<open>generate_name\<close> has returned or will return), runs to its end,
  and the strings its \<open>generate_name\<close> calls return, one for each call, are pairwise
  distinct.
\<close>

theorem generate_name_issues_distinct:
  assumes "sys_ok s"
  shows "\<exists>issued s'. run cs s = Some (issued, s') \<and> distinct issued \<and>
           length issued = length (filter (\<lambda>c. c = Generate) cs)"
proof -
  obtain issued s' where i: "run cs s = Some (issued, s')" "distinct issued"
      "length issued = length (filter (\<lambda>c. c = Generate) cs)"
    using run_distinct [OF assms avoids_empty, of cs] by blast
  show ?thesis by (intro exI [of _ issued] exI [of _ s'] conjI i)
qed

text \<open>
  The theorem in a fresh process, for four \<open>generate_name\<close> calls between which the name
  \<open>beta-yellow\<close>, the second the iterator yields, and a name \<open>x\<close> are activated.
\<close>

theorem generate_name_issues_distinct_witness:
  "sys_ok (sys_init ''sid'' (\<lambda>_. 0) real) \<and>
   (\<exists>issued s'.
      run [Generate, Activate ''beta-yellow'', Generate, Generate, Activate ''x'', Generate]
          (sys_init ''sid'' (\<lambda>_. 0) real) = Some (issued, s') \<and>
      distinct issued \<and> length issued = 4)"
proof -
  let ?cs = "[Generate, Activate ''beta-yellow'', Generate, Generate, Activate ''x'', Generate]"
  have l: "length (filter (\<lambda>c. c = Generate) ?cs) = 4" by simp
  note t = generate_name_issues_distinct [OF sys_ok_init, of ?cs "''sid''" "\<lambda>_. 0" real, unfolded l]
  show ?thesis by (intro conjI sys_ok_init t)
qed
end
